theory Spec2Isabelle
  imports Complex_Main "HOL-Library.Word" "HOL-Library.Product_Lexorder" "HOL-Library.Multiset"
begin

section \<open>Vault codec (crypto module)\<close>

text \<open>
  The crypto module works on byte arrays (\<open>Uint8Array\<close>).  The passphrase is a string;
  \<open>TextEncoder.encode\<close> turns it into its bytes.
\<close>

type_synonym byte = "8 word"
type_synonym bytes = "byte list"

definition SALT_LEN :: nat where
  "SALT_LEN = 32"

definition IV_LEN :: nat where
  "IV_LEN = 12"

definition PBKDF2_ITERATIONS :: nat where
  "PBKDF2_ITERATIONS = 600000"

definition text_encode :: "string \<Rightarrow> bytes" where
  "text_encode s = map of_char s"

text \<open>\<open>MAGIC = new TextEncoder().encode('CYKEL_V1')\<close>, eight bytes.\<close>

definition MAGIC :: bytes where
  "MAGIC = text_encode ''CYKEL_V1''"

text \<open>
  The Web Crypto primitives are the platform's, not the repository's: PBKDF2 with
  SHA-256 producing an AES key, and AES-GCM encryption and decryption under a key and
  an initialisation vector.  They are parameters of the model.  AES-GCM decryption
  rejects (the promise is rejected) when the authentication tag does not verify; that
  is the result \<open>None\<close>.
\<close>

record 'k primitives =
  pbkdf2_sha256 :: "bytes \<Rightarrow> bytes \<Rightarrow> nat \<Rightarrow> 'k"
  aes_gcm_encrypt :: "'k \<Rightarrow> bytes \<Rightarrow> bytes \<Rightarrow> bytes"
  aes_gcm_decrypt :: "'k \<Rightarrow> bytes \<Rightarrow> bytes \<Rightarrow> bytes option"

text \<open>
  The two errors \<open>decrypt\<close> throws: \<open>Error('Invalid data format')\<close>, the
  specification's \<open>CorruptData\<close>, and \<open>Error('Wrong passphrase')\<close>.
\<close>

datatype error = CorruptData | WrongPassphrase

definition deriveKey :: "'k primitives \<Rightarrow> string \<Rightarrow> bytes \<Rightarrow> 'k" where
  "deriveKey pr passphrase salt =
     pbkdf2_sha256 pr (text_encode passphrase) salt PBKDF2_ITERATIONS"

text \<open>
  \<open>encrypt\<close> draws the salt and the initialisation vector from
  \<open>crypto.getRandomValues\<close>; the model takes the two drawn arrays as arguments.
\<close>

definition encrypt :: "'k primitives \<Rightarrow> bytes \<Rightarrow> bytes \<Rightarrow> string \<Rightarrow> bytes \<Rightarrow> bytes" where
  "encrypt pr salt iv passphrase plaintext =
     (let key = deriveKey pr passphrase salt;
          payload = MAGIC @ plaintext;
          ciphertext = aes_gcm_encrypt pr key iv payload
      in salt @ iv @ ciphertext)"

text \<open>\<open>a.slice(i, j)\<close> and \<open>a.slice(i)\<close> on a typed array, for \<open>0 \<le> i \<le> j\<close>.\<close>

definition slice :: "'a list \<Rightarrow> nat \<Rightarrow> nat \<Rightarrow> 'a list" where
  "slice a i j = take (j - i) (drop i a)"

definition slice_from :: "'a list \<Rightarrow> nat \<Rightarrow> 'a list" where
  "slice_from a i = drop i a"

text \<open>Reading index \<open>i\<close> of an array: \<open>undefined\<close> (here \<open>None\<close>) past the end.\<close>

definition at_index :: "'a list \<Rightarrow> nat \<Rightarrow> 'a option" where
  "at_index a i = (if i < length a then Some (a ! i) else None)"

text \<open>
  The marker loop of \<open>decrypt\<close>: it throws at the first index \<open>i < MAGIC.length\<close>
  with \<open>decrypted[i] !== MAGIC[i]\<close>.  The result is whether it throws.
\<close>

definition magic_mismatch :: "bytes \<Rightarrow> bool" where
  "magic_mismatch decrypted =
     list_ex (\<lambda>i. at_index decrypted i \<noteq> Some (MAGIC ! i)) [0..<length MAGIC]"

definition decrypt :: "'k primitives \<Rightarrow> string \<Rightarrow> bytes \<Rightarrow> error + bytes" where
  "decrypt pr passphrase encrypted =
     (if length encrypted < SALT_LEN + IV_LEN + length MAGIC then Inl CorruptData
      else
        let salt = slice encrypted 0 SALT_LEN;
            iv = slice encrypted SALT_LEN (SALT_LEN + IV_LEN);
            ciphertext = slice_from encrypted (SALT_LEN + IV_LEN);
            key = deriveKey pr passphrase salt
        in case aes_gcm_decrypt pr key iv ciphertext of
             None \<Rightarrow> Inl WrongPassphrase
           | Some decrypted \<Rightarrow>
               if magic_mismatch decrypted then Inl WrongPassphrase
               else Inr (slice_from decrypted (length MAGIC)))"

text \<open>
  A small concrete instance of the primitives, used to run the codec on inputs: the key
  is the passphrase bytes followed by the salt, the ciphertext is the payload followed
  by a 16-byte tag made from the key, and decryption rejects a ciphertext whose last 16
  bytes are not that tag.
\<close>

definition toy_tag :: "bytes \<Rightarrow> bytes" where
  "toy_tag key = take 16 (key @ replicate 16 0)"

definition toy_primitives :: "bytes primitives" where
  "toy_primitives =
     \<lparr> pbkdf2_sha256 = (\<lambda>pw salt n. pw @ salt),
       aes_gcm_encrypt = (\<lambda>key iv m. m @ toy_tag key),
       aes_gcm_decrypt = (\<lambda>key iv c.
          if 16 \<le> length c \<and> drop (length c - 16) c = toy_tag key
          then Some (take (length c - 16) c) else None) \<rparr>"

text \<open>
  The key derivation of the platform is PBKDF2 with HMAC as its pseudorandom function
  (RFC 8018 over RFC 2104).  What the passphrase contributes is the HMAC key, and HMAC
  brings every key to the block length of the hash, 64 bytes for SHA-256: a longer key
  is hashed first, and the key is then filled up with zero bytes.  The hash function
  \<open>H\<close> is a parameter; the derived key is the first block of the PBKDF2 output,
  which for SHA-256 is the 256 bits asked for.
\<close>

definition HMAC_BLOCK :: nat where
  "HMAC_BLOCK = 64"

definition hmac_key :: "(bytes \<Rightarrow> bytes) \<Rightarrow> bytes \<Rightarrow> bytes" where
  "hmac_key H K =
     (let K' = (if HMAC_BLOCK < length K then H K else K)
      in K' @ replicate (HMAC_BLOCK - length K') 0)"

definition hmac :: "(bytes \<Rightarrow> bytes) \<Rightarrow> bytes \<Rightarrow> bytes \<Rightarrow> bytes" where
  "hmac H K m =
     (let K0 = hmac_key H K
      in H (map (\<lambda>b. xor b 0x5c) K0 @ H (map (\<lambda>b. xor b 0x36) K0 @ m)))"

fun pbkdf2_rounds :: "(bytes \<Rightarrow> bytes) \<Rightarrow> bytes \<Rightarrow> nat \<Rightarrow> bytes \<Rightarrow> bytes \<Rightarrow> bytes" where
  "pbkdf2_rounds H P 0 u t = t"
| "pbkdf2_rounds H P (Suc n) u t =
     (let u' = hmac H P u in pbkdf2_rounds H P n u' (map2 xor t u'))"

definition pbkdf2_hmac :: "(bytes \<Rightarrow> bytes) \<Rightarrow> bytes \<Rightarrow> bytes \<Rightarrow> nat \<Rightarrow> bytes" where
  "pbkdf2_hmac H P S c =
     (if c = 0 then []
      else let u1 = hmac H P (S @ [0, 0, 0, 1]) in pbkdf2_rounds H P (c - 1) u1 u1)"

text \<open>Primitives whose key derivation is PBKDF2 over HMAC with the hash \<open>H\<close>.\<close>

definition with_pbkdf2 :: "(bytes \<Rightarrow> bytes) \<Rightarrow> bytes primitives \<Rightarrow> bytes primitives" where
  "with_pbkdf2 H pr = pr\<lparr>pbkdf2_sha256 := pbkdf2_hmac H\<rparr>"

text \<open>A stand-in for the hash, to run the derivation on inputs: the first 32 bytes.\<close>

definition toy_hash :: "bytes \<Rightarrow> bytes" where
  "toy_hash m = take 32 (m @ replicate 32 0)"

section \<open>Dates and numbers of the prediction engine\<close>

text \<open>
  A date is a string \<open>YYYY-MM-DD\<close> with zero-padded fields.  The model keeps the
  three numeric fields \<open>s.split('-').map(Number)\<close>; on such strings the order of
  \<open>sort()\<close> and of \<open>localeCompare\<close> is the lexicographic order of the fields,
  which is the order of the triple.
\<close>

type_synonym date = "int \<times> int \<times> int"

text \<open>
  The platform's \<open>Date\<close>, at local midnight, is modelled by the number of its day
  (day 0 is 1970-01-01), and its calendar by the day-number operations of the
  ECMAScript standard for the proleptic Gregorian calendar.  \<open>DayFromYear y\<close> is the
  number of the first day of year \<open>y\<close>.
\<close>

definition DayFromYear :: "int \<Rightarrow> int" where
  "DayFromYear y =
     365 * (y - 1970) + (y - 1969) div 4 - (y - 1901) div 100 + (y - 1601) div 400"

definition InLeapYear :: "int \<Rightarrow> bool" where
  "InLeapYear y = (y mod 4 = 0 \<and> (y mod 100 \<noteq> 0 \<or> y mod 400 = 0))"

text \<open>
  \<open>YearFromTime t\<close> is the largest year whose first day is not after \<open>t\<close>.  It is
  computed from the mean length of a year, 146097 days in 400 years, and corrected by
  one year where the estimate is off.
\<close>

definition YearFromTime :: "int \<Rightarrow> int" where
  "YearFromTime t =
     (let y = 1970 + (400 * t) div 146097
      in if t < DayFromYear y then y - 1
         else if DayFromYear (y + 1) \<le> t then y + 1
         else y)"

definition DayWithinYear :: "int \<Rightarrow> int" where
  "DayWithinYear t = t - DayFromYear (YearFromTime t)"

text \<open>
  The days of a year before month \<open>mn\<close> (0 for January), where \<open>l\<close> is 1 in a leap
  year and 0 otherwise.
\<close>

definition month_start :: "int \<Rightarrow> int \<Rightarrow> int" where
  "month_start l mn =
     (if mn = 0 then 0 else if mn = 1 then 31 else if mn = 2 then 59 + l
      else if mn = 3 then 90 + l else if mn = 4 then 120 + l else if mn = 5 then 151 + l
      else if mn = 6 then 181 + l else if mn = 7 then 212 + l else if mn = 8 then 243 + l
      else if mn = 9 then 273 + l else if mn = 10 then 304 + l else 334 + l)"

definition leap_days :: "int \<Rightarrow> int" where
  "leap_days y = (if InLeapYear y then 1 else 0)"

definition MonthFromTime :: "int \<Rightarrow> int" where
  "MonthFromTime t =
     (let d = DayWithinYear t; l = leap_days (YearFromTime t)
      in if d < 31 then 0 else if d < 59 + l then 1 else if d < 90 + l then 2
         else if d < 120 + l then 3 else if d < 151 + l then 4 else if d < 181 + l then 5
         else if d < 212 + l then 6 else if d < 243 + l then 7 else if d < 273 + l then 8
         else if d < 304 + l then 9 else if d < 334 + l then 10 else 11)"

definition DateFromTime :: "int \<Rightarrow> int" where
  "DateFromTime t =
     DayWithinYear t - month_start (leap_days (YearFromTime t)) (MonthFromTime t) + 1"

text \<open>
  \<open>MakeDay\<close> is the operation behind the constructor and \<open>setDate\<close>: the month index
  may lie outside \<open>0..11\<close> and the day of the month outside the month; both carry over.
\<close>

definition MakeDay :: "int \<Rightarrow> int \<Rightarrow> int \<Rightarrow> int" where
  "MakeDay year month dt =
     (let ym = year + month div 12;
          mn = month mod 12
      in DayFromYear ym + month_start (leap_days ym) mn + dt - 1)"

text \<open>\<open>new Date(y, m, d)\<close>: a year from 0 to 99 means 1900 + y.\<close>

definition new_Date :: "int \<Rightarrow> int \<Rightarrow> int \<Rightarrow> int" where
  "new_Date y m d = MakeDay (if 0 \<le> y \<and> y \<le> 99 then 1900 + y else y) m d"

definition getFullYear :: "int \<Rightarrow> int" where
  "getFullYear t = YearFromTime t"

definition getMonth :: "int \<Rightarrow> int" where
  "getMonth t = MonthFromTime t"

definition getDate :: "int \<Rightarrow> int" where
  "getDate t = DateFromTime t"

definition setDate :: "int \<Rightarrow> int \<Rightarrow> int" where
  "setDate t dt = MakeDay (getFullYear t) (getMonth t) dt"

definition parseDate :: "date \<Rightarrow> int" where
  "parseDate s = (case s of (y, m, d) \<Rightarrow> new_Date y (m - 1) d)"

definition fmtDate :: "int \<Rightarrow> date" where
  "fmtDate d = (getFullYear d, getMonth d + 1, getDate d)"

text \<open>
  \<open>daysBetween\<close> rounds the difference of two local midnights, in milliseconds,
  divided by 86400000; the rounding absorbs the hour of a daylight-saving change, so
  the result is the difference of the day numbers.
\<close>

definition daysBetween :: "date \<Rightarrow> date \<Rightarrow> int" where
  "daysBetween a b = (let da = parseDate a; db = parseDate b in db - da)"

definition addDays :: "date \<Rightarrow> int \<Rightarrow> date" where
  "addDays dateStr n = (let d = parseDate dateStr in fmtDate (setDate d (getDate d + n)))"

text \<open>
  Numbers are IEEE doubles in the source.  The sums are sums of small integers and are
  exact; quotients and the square root are taken in the reals.  \<open>Math.round\<close> rounds
  to the nearest integer, a half upwards.  It is applied to means of at most six
  integers; such a mean is a half-integer, which a double holds exactly, or lies at
  least a twelfth away from every half-integer, so rounding the double and rounding
  the exact quotient give the same integer.
\<close>

definition Math_round :: "real \<Rightarrow> int" where
  "Math_round x = \<lfloor>x + 1 / 2\<rfloor>"

definition mean :: "int list \<Rightarrow> real" where
  "mean arr =
     (if length arr = 0 then 0
      else real_of_int (foldl (\<lambda>a b. a + b) 0 arr) / real (length arr))"

definition stdDev :: "int list \<Rightarrow> real" where
  "stdDev arr =
     (if length arr < 2 then 0
      else
        let avg = mean arr;
            variance = foldl (\<lambda>sum v. sum + (real_of_int v - avg)\<^sup>2) 0 arr
                         / real (length arr - 1)
        in sqrt variance)"

text \<open>
  A division by zero does not fail in JavaScript: \<open>0 / 0\<close> is \<open>NaN\<close> and
  \<open>x / 0\<close> is an infinity.  The confidence is computed by one division, one
  subtraction from 1, \<open>Math.min\<close> and \<open>Math.max\<close>; these four operations are
  modelled with their results on the special values.  The divisor is a mean, a sum
  that starts at \<open>0\<close> divided by a length, so its zero is the positive zero.
\<close>

datatype jsnum = Fin real | PosInf | NegInf | NaN

definition js_div :: "real \<Rightarrow> real \<Rightarrow> jsnum" where
  "js_div a b =
     (if b \<noteq> 0 then Fin (a / b)
      else if a = 0 then NaN
      else if 0 < a then PosInf else NegInf)"

fun js_sub :: "real \<Rightarrow> jsnum \<Rightarrow> jsnum" where
  "js_sub a (Fin b) = Fin (a - b)"
| "js_sub a PosInf = NegInf"
| "js_sub a NegInf = PosInf"
| "js_sub a NaN = NaN"

fun Math_min :: "real \<Rightarrow> jsnum \<Rightarrow> jsnum" where
  "Math_min a (Fin b) = Fin (min a b)"
| "Math_min a PosInf = Fin a"
| "Math_min a NegInf = NegInf"
| "Math_min a NaN = NaN"

fun Math_max :: "real \<Rightarrow> jsnum \<Rightarrow> jsnum" where
  "Math_max a (Fin b) = Fin (max a b)"
| "Math_max a PosInf = PosInf"
| "Math_max a NegInf = Fin a"
| "Math_max a NaN = NaN"

section \<open>Cycle reconstruction\<close>

datatype flow = FlowNone | Light | Medium | Heavy

record dayLog =
  date :: date
  flow_level :: flow
  notes_text :: string

record cycle =
  start_date :: date
  end_date :: "date option"

text \<open>\<open>[...new Set(a)]\<close>: the elements of \<open>a\<close> in order of first occurrence.\<close>

definition dedupe :: "'a list \<Rightarrow> 'a list" where
  "dedupe a = foldl (\<lambda>seen x. if x \<in> set seen then seen else seen @ [x]) [] a"

text \<open>
  The loop of \<open>rebuildCycles\<close> over \<open>unique[1..]\<close>, with its three variables
  \<open>cycles\<close>, \<open>start\<close> and \<open>end\<close>.
\<close>

fun group_loop :: "cycle list \<Rightarrow> date \<Rightarrow> date \<Rightarrow> date list \<Rightarrow> cycle list \<times> date \<times> date" where
  "group_loop cycles start end [] = (cycles, start, end)"
| "group_loop cycles start end (u # us) =
     (let gap = daysBetween end u
      in if gap \<le> 2 then group_loop cycles start u us
         else group_loop (cycles @ [\<lparr>start_date = start, end_date = Some end\<rparr>]) u u us)"

definition flowDays :: "dayLog list \<Rightarrow> date list" where
  "flowDays dayLogs = sort (map date (filter (\<lambda>l. flow_level l \<noteq> FlowNone) dayLogs))"

text \<open>
  \<open>rebuildCycles\<close> reads the clock: \<open>today = fmtDate(new Date())\<close>.  The model
  takes \<open>today\<close> as an argument.
\<close>

definition rebuildCycles :: "dayLog list \<Rightarrow> date \<Rightarrow> cycle list" where
  "rebuildCycles dayLogs today =
     (let unique = dedupe (flowDays dayLogs)
      in case unique of
           [] \<Rightarrow> []
         | u0 # rest \<Rightarrow>
             (case group_loop [] u0 u0 rest of
                (cycles, start, end) \<Rightarrow>
                  let daysAgo = daysBetween end today
                  in cycles @ [\<lparr>start_date = start,
                                 end_date = (if daysAgo \<le> 2 then None else Some end)\<rparr>]))"

section \<open>Prediction engine\<close>

record prediction =
  predicted_start :: date
  predicted_end :: date
  confidence :: jsnum

record fertility =
  fertile_start :: date
  fertile_end :: date
  ovulation_day :: date
  peak_start :: date
  peak_end :: date

text \<open>\<open>a.slice(-6)\<close>: the last six elements, all of them when there are fewer.\<close>

definition slice_last :: "nat \<Rightarrow> 'a list \<Rightarrow> 'a list" where
  "slice_last n a = drop (length a - n) a"

definition completed_cycles :: "cycle list \<Rightarrow> cycle list" where
  "completed_cycles cycles = sort_key start_date (filter (\<lambda>c. end_date c \<noteq> None) cycles)"

text \<open>The loop that fills \<open>cycleLengths\<close>, for \<open>i\<close> from 1 below \<open>recent.length\<close>.\<close>

definition cycleLengths_of :: "cycle list \<Rightarrow> int list" where
  "cycleLengths_of recent =
     map (\<lambda>i. daysBetween (start_date (recent ! (i - 1))) (start_date (recent ! i)))
       [1..<length recent]"

text \<open>Every cycle of \<open>recent\<close> has passed the filter, so its \<open>end_date\<close> is a date.\<close>

definition periodLengths_of :: "cycle list \<Rightarrow> int list" where
  "periodLengths_of recent =
     map (\<lambda>c. daysBetween (start_date c) (the (end_date c)) + 1) recent"

definition predict :: "cycle list \<Rightarrow> prediction option" where
  "predict cycles =
     (let completed = completed_cycles cycles
      in if length completed < 2 then None
         else
           let recent = slice_last 6 completed;
               cycleLengths = cycleLengths_of recent
           in if length cycleLengths = 0 then None
              else
                let periodLengths = periodLengths_of recent;
                    avgCycle = mean cycleLengths;
                    avgPeriod = (if length periodLengths \<noteq> 0 then mean periodLengths else 5);
                    lastStart = start_date (completed ! (length completed - 1));
                    predictedStart = addDays lastStart (Math_round avgCycle);
                    predictedEnd = addDays predictedStart (max 0 (Math_round avgPeriod - 1));
                    sd = stdDev cycleLengths;
                    conf = Math_max (1 / 10) (Math_min (95 / 100) (js_sub 1 (js_div sd avgCycle)))
                in Some \<lparr>predicted_start = predictedStart, predicted_end = predictedEnd,
                          confidence = conf\<rparr>)"

definition fertilityWindow :: "cycle list \<Rightarrow> fertility option" where
  "fertilityWindow cycles =
     (case predict cycles of
        None \<Rightarrow> None
      | Some pred \<Rightarrow>
          let ovulationDay = addDays (predicted_start pred) (- 14);
              fertileStart = addDays ovulationDay (- 5);
              peakStart = addDays ovulationDay (- 2)
          in Some \<lparr>fertile_start = fertileStart, fertile_end = ovulationDay,
                    ovulation_day = ovulationDay, peak_start = peakStart,
                    peak_end = ovulationDay\<rparr>)"

section \<open>Reference notions for the properties\<close>

text \<open>
  The runs of a list of dates, as the specification words them: going through the
  dates in order, a date that is at most 2 days after the one before it stays in the
  run of that date, and any other date opens a new run.
\<close>

fun runs :: "date list \<Rightarrow> date list list" where
  "runs [] = []"
| "runs [x] = [[x]]"
| "runs (x # y # ys) =
     (if daysBetween x y \<le> 2
      then (case runs (y # ys) of [] \<Rightarrow> [[x]] | r # rs \<Rightarrow> (x # r) # rs)
      else [x] # runs (y # ys))"

text \<open>Inside a run, each date is at most 2 days after the date before it.\<close>

fun linked :: "date list \<Rightarrow> bool" where
  "linked (x # y # ys) = (daysBetween x y \<le> 2 \<and> linked (y # ys))"
| "linked _ = True"

text \<open>From the end of a run to the start of the next there are more than 2 days.\<close>

fun separated :: "date list list \<Rightarrow> bool" where
  "separated (r # s # rs) = (2 < daysBetween (last r) (hd s) \<and> separated (s # rs))"
| "separated _ = True"



text \<open>
  A valid date: a year from 100 to 9999 (below 100 the \<open>Date\<close> constructor reads
  the year as 19xx), a month from 1 to 12, and a day that
  exists in the month.  \<open>days_in_month l m\<close> is the length of month \<open>m\<close>, where
  \<open>l\<close> is 1 in a leap year and 0 otherwise.
\<close>

definition days_in_month :: "int \<Rightarrow> int \<Rightarrow> int" where
  "days_in_month l m =
     (if m = 2 then 28 + l else if m = 4 \<or> m = 6 \<or> m = 9 \<or> m = 11 then 30 else 31)"

definition valid_date :: "date \<Rightarrow> bool" where
  "valid_date s =
     (case s of (y, m, d) \<Rightarrow>
        100 \<le> y \<and> y \<le> 9999 \<and> 1 \<le> m \<and> m \<le> 12 \<and> 1 \<le> d \<and> d \<le> days_in_month (leap_days y) m)"

text \<open>The day \<open>t\<close> lies in a year from 0 to 99, which \<open>parseDate\<close> cannot read back.\<close>

definition two_digit_year :: "int \<Rightarrow> bool" where
  "two_digit_year t = (0 \<le> YearFromTime t \<and> YearFromTime t \<le> 99)"

text \<open>A day log with flow, for examples.\<close>

definition flow_on :: "date \<Rightarrow> dayLog" where
  "flow_on d = \<lparr>date = d, flow_level = Light, notes_text = []\<rparr>"

definition closed_cycle :: "date \<Rightarrow> date \<Rightarrow> cycle" where
  "closed_cycle s e = \<lparr>start_date = s, end_date = Some e\<rparr>"

definition open_cycle :: "date \<Rightarrow> cycle" where
  "open_cycle s = \<lparr>start_date = s, end_date = None\<rparr>"

section \<open>Properties of the vault codec\<close>

lemma length_MAGIC: "length MAGIC = 8"
  by (simp add: MAGIC_def text_encode_def)

lemma magic_mismatch_prefix: "\<not> magic_mismatch (MAGIC @ B)"
  by (simp add: magic_mismatch_def list_ex_iff at_index_def nth_append)

lemma magic_mismatch_iff: "magic_mismatch d \<longleftrightarrow> take (length MAGIC) d \<noteq> MAGIC"
proof
  assume "magic_mismatch d"
  then obtain i where i: "i < length MAGIC" "at_index d i \<noteq> Some (MAGIC ! i)"
    by (auto simp: magic_mismatch_def list_ex_iff)
  show "take (length MAGIC) d \<noteq> MAGIC"
  proof
    assume eq: "take (length MAGIC) d = MAGIC"
    then have "length (take (length MAGIC) d) = length MAGIC"
      by simp
    then have "length MAGIC \<le> length d"
      by simp
    moreover from eq i have "d ! i = MAGIC ! i"
      by (metis nth_take)
    ultimately show False using i by (simp add: at_index_def)
  qed
next
  assume ne: "take (length MAGIC) d \<noteq> MAGIC"
  show "magic_mismatch d"
  proof (rule ccontr)
    assume "\<not> magic_mismatch d"
    then have all: "\<forall>i < length MAGIC. at_index d i = Some (MAGIC ! i)"
      by (auto simp: magic_mismatch_def list_ex_iff)
    then have "at_index d 7 = Some (MAGIC ! 7)"
      by (simp add: length_MAGIC)
    then have len: "length MAGIC \<le> length d"
      by (simp add: at_index_def length_MAGIC split: if_splits)
    have "take (length MAGIC) d = MAGIC"
    proof (rule nth_equalityI)
      show "length (take (length MAGIC) d) = length MAGIC" using len by simp
    next
      fix i assume "i < length (take (length MAGIC) d)"
      then have "i < length MAGIC" by simp
      with all len show "take (length MAGIC) d ! i = MAGIC ! i"
        by (auto simp: at_index_def split: if_splits)
    qed
    with ne show False by contradiction
  qed
qed

lemma decrypt_encrypt_split:
  assumes "length salt = SALT_LEN" and "length iv = IV_LEN"
    and "length MAGIC \<le> length (aes_gcm_encrypt pr (deriveKey pr P1 salt) iv (MAGIC @ B))"
  shows "decrypt pr P2 (encrypt pr salt iv P1 B) =
     (case aes_gcm_decrypt pr (deriveKey pr P2 salt) iv
             (aes_gcm_encrypt pr (deriveKey pr P1 salt) iv (MAGIC @ B)) of
        None \<Rightarrow> Inl WrongPassphrase
      | Some decrypted \<Rightarrow>
          if magic_mismatch decrypted then Inl WrongPassphrase
          else Inr (drop (length MAGIC) decrypted))"
  using assms
  by (simp add: decrypt_def encrypt_def Let_def slice_def slice_from_def split: option.splits)

lemma toy_tag_length: "length (toy_tag key) = 16"
  by (simp add: toy_tag_def)

lemma toy_roundtrip:
  "aes_gcm_decrypt toy_primitives key iv (aes_gcm_encrypt toy_primitives key iv m) = Some m"
  by (simp add: toy_primitives_def toy_tag_length)

lemma toy_length:
  "length (aes_gcm_encrypt toy_primitives key iv m) = length m + 16"
  by (simp add: toy_primitives_def toy_tag_length)

text \<open>
  Claim C1.  Round trip: for every passphrase \<open>P\<close> and plaintext \<open>B\<close>, decrypting
  with \<open>P\<close> what \<open>encrypt\<close> produced with \<open>P\<close> succeeds and returns exactly \<open>B\<close>.
  The salt and the initialisation vector are the 32 and 12 random bytes \<open>encrypt\<close>
  draws; AES-GCM is assumed to append a 16-byte tag and to decrypt its own output
  under the same key and initialisation vector.
\<close>

theorem decrypt_encrypt_roundtrip:
  assumes "length salt = SALT_LEN" and "length iv = IV_LEN"
    and "length (aes_gcm_encrypt pr (deriveKey pr P salt) iv (MAGIC @ B))
           = length (MAGIC @ B) + 16"
    and "aes_gcm_decrypt pr (deriveKey pr P salt) iv
           (aes_gcm_encrypt pr (deriveKey pr P salt) iv (MAGIC @ B)) = Some (MAGIC @ B)"
  shows "decrypt pr P (encrypt pr salt iv P B) = Inr B"
proof -
  have "length MAGIC \<le> length (aes_gcm_encrypt pr (deriveKey pr P salt) iv (MAGIC @ B))"
    using assms(3) by simp
  from decrypt_encrypt_split [OF assms(1) assms(2) this, of P]
  show ?thesis
    using assms(4) by (simp add: magic_mismatch_prefix)
qed

theorem decrypt_encrypt_roundtrip_witness:
  "decrypt toy_primitives ''hunter2''
     (encrypt toy_primitives (replicate 32 7) (replicate 12 9) ''hunter2'' [1, 2, 3])
   = Inr [1, 2, 3]"
  by (rule decrypt_encrypt_roundtrip)
     (simp_all add: SALT_LEN_def IV_LEN_def toy_roundtrip toy_length)

lemma hmac_cong: "hmac_key H K1 = hmac_key H K2 \<Longrightarrow> hmac H K1 m = hmac H K2 m"
  by (simp add: hmac_def)

lemma pbkdf2_rounds_cong:
  assumes "hmac_key H K1 = hmac_key H K2"
  shows "pbkdf2_rounds H K1 n u t = pbkdf2_rounds H K2 n u t"
proof (induction n arbitrary: u t)
  case 0
  show ?case by simp
next
  case (Suc n)
  have "hmac H K1 u = hmac H K2 u" using assms by (rule hmac_cong)
  with Suc.IH show ?case by (simp add: Let_def)
qed

lemma pbkdf2_hmac_cong:
  assumes "hmac_key H K1 = hmac_key H K2"
  shows "pbkdf2_hmac H K1 S c = pbkdf2_hmac H K2 S c"
proof -
  have "hmac H K1 (S @ [0, 0, 0, 1]) = hmac H K2 (S @ [0, 0, 0, 1])"
    using assms by (rule hmac_cong)
  then show ?thesis
    unfolding pbkdf2_hmac_def Let_def
    by (simp only: pbkdf2_rounds_cong [OF assms])
qed

lemma hmac_key_nul:
  assumes "length K < HMAC_BLOCK"
  shows "hmac_key H (K @ [0]) = hmac_key H K"
proof -
  have "HMAC_BLOCK - length K = Suc (HMAC_BLOCK - length (K @ [0]))"
    using assms by simp
  then have "replicate (HMAC_BLOCK - length K) (0 :: byte)
      = 0 # replicate (HMAC_BLOCK - length (K @ [0])) 0"
    by (simp only: replicate_Suc)
  with assms show ?thesis
    by (simp add: hmac_key_def Let_def)
qed

lemma text_encode_nul: "text_encode (s @ [CHR 0x00]) = text_encode s @ [0]"
  by (simp add: text_encode_def)

text \<open>
  A passphrase shorter than 64 bytes and the same passphrase followed by a NUL
  character derive the same key, whatever the hash, the salt and the iteration count.
\<close>

lemma deriveKey_nul:
  assumes "length P < HMAC_BLOCK"
  shows "deriveKey (with_pbkdf2 H pr) (P @ [CHR 0x00]) salt = deriveKey (with_pbkdf2 H pr) P salt"
proof -
  have "length (text_encode P) < HMAC_BLOCK"
    using assms by (simp add: text_encode_def)
  then have "hmac_key H (text_encode P @ [0]) = hmac_key H (text_encode P)"
    by (rule hmac_key_nul)
  then have "pbkdf2_hmac H (text_encode P @ [0]) salt PBKDF2_ITERATIONS
      = pbkdf2_hmac H (text_encode P) salt PBKDF2_ITERATIONS"
    by (rule pbkdf2_hmac_cong)
  then show ?thesis
    by (simp add: deriveKey_def with_pbkdf2_def text_encode_nul)
qed

text \<open>
  So that second passphrase opens the vault of the first, for every hash and every
  AES-GCM that decrypts its own output.
\<close>

lemma decrypt_nul_passphrase:
  assumes "length P < HMAC_BLOCK" and "length salt = SALT_LEN" and "length iv = IV_LEN"
    and "length (aes_gcm_encrypt pr (deriveKey (with_pbkdf2 H pr) P salt) iv (MAGIC @ B))
           = length (MAGIC @ B) + 16"
    and "aes_gcm_decrypt pr (deriveKey (with_pbkdf2 H pr) P salt) iv
           (aes_gcm_encrypt pr (deriveKey (with_pbkdf2 H pr) P salt) iv (MAGIC @ B))
         = Some (MAGIC @ B)"
  shows "decrypt (with_pbkdf2 H pr) (P @ [CHR 0x00]) (encrypt (with_pbkdf2 H pr) salt iv P B)
       = Inr B"
proof -
  let ?pr = "with_pbkdf2 H pr"
  have enc: "aes_gcm_encrypt ?pr = aes_gcm_encrypt pr" and dec: "aes_gcm_decrypt ?pr = aes_gcm_decrypt pr"
    by (simp_all add: with_pbkdf2_def)
  have "length MAGIC \<le> length (aes_gcm_encrypt ?pr (deriveKey ?pr P salt) iv (MAGIC @ B))"
    using assms(4) by (simp add: enc)
  from decrypt_encrypt_split [OF assms(2) assms(3) this, of "P @ [CHR 0x00]"]
  show ?thesis
    using assms(5) by (simp add: deriveKey_nul [OF assms(1)] enc dec magic_mismatch_prefix)
qed

text \<open>
  Claim C2, amended.  For all passphrases \<open>P1\<close> and \<open>P2\<close>, decrypting with \<open>P2\<close>
  what \<open>encrypt\<close> produced with \<open>P1\<close> never raises any error other than
  \<open>WrongPassphrase\<close>.  It fails with \<open>WrongPassphrase\<close> both when AES-GCM rejects
  the ciphertext under the key of \<open>P2\<close> and when AES-GCM accepts it but the leading
  bytes of the result are not the 8-byte marker; in the one remaining case, AES-GCM
  accepting with the marker in front, it succeeds with the bytes after the marker.
\<close>

theorem decrypt_other_passphrase:
  assumes "length salt = SALT_LEN" and "length iv = IV_LEN"
    and "length (aes_gcm_encrypt pr (deriveKey pr P1 salt) iv (MAGIC @ B))
           = length (MAGIC @ B) + 16"
    and "r = aes_gcm_decrypt pr (deriveKey pr P2 salt) iv
               (aes_gcm_encrypt pr (deriveKey pr P1 salt) iv (MAGIC @ B))"
  shows "(\<forall>e. decrypt pr P2 (encrypt pr salt iv P1 B) = Inl e \<longrightarrow> e = WrongPassphrase)
       \<and> (r = None \<or> (\<exists>d. r = Some d \<and> take (length MAGIC) d \<noteq> MAGIC)
            \<longrightarrow> decrypt pr P2 (encrypt pr salt iv P1 B) = Inl WrongPassphrase)
       \<and> (\<forall>d. r = Some d \<and> take (length MAGIC) d = MAGIC
            \<longrightarrow> decrypt pr P2 (encrypt pr salt iv P1 B) = Inr (drop (length MAGIC) d))"
proof -
  have "length MAGIC \<le> length (aes_gcm_encrypt pr (deriveKey pr P1 salt) iv (MAGIC @ B))"
    using assms(3) by simp
  from decrypt_encrypt_split [OF assms(1) assms(2) this, of P2]
  show ?thesis
    using assms(4) by (auto simp: magic_mismatch_iff split: option.splits if_splits)
qed

theorem decrypt_other_passphrase_witness:
  "decrypt toy_primitives ''hunter3''
     (encrypt toy_primitives (replicate 32 7) (replicate 12 9) ''hunter2'' [1, 2, 3])
   = Inl WrongPassphrase"
proof -
  have r: "aes_gcm_decrypt toy_primitives
             (deriveKey toy_primitives ''hunter3'' (replicate 32 7)) (replicate 12 9)
             (aes_gcm_encrypt toy_primitives
                (deriveKey toy_primitives ''hunter2'' (replicate 32 7)) (replicate 12 9)
                (MAGIC @ [1, 2, 3])) = None"
    by (simp add: toy_primitives_def toy_tag_def deriveKey_def text_encode_def MAGIC_def)
  from decrypt_other_passphrase [OF _ _ _ refl, of "replicate 32 7" "replicate 12 9"
      toy_primitives "''hunter2''" "[1, 2, 3]" "''hunter3''"]
  show ?thesis
    using r by (simp add: SALT_LEN_def IV_LEN_def toy_length)
qed

text \<open>
  Claim C2 as stated fails: the passphrases \<open>hunter2\<close> and \<open>hunter2\<close> followed by a
  NUL character are distinct, and the second decrypts what was encrypted with the
  first.
\<close>

theorem decrypt_other_passphrase_counterexample:
  "''hunter2'' \<noteq> ''hunter2'' @ [CHR 0x00]
   \<and> decrypt (with_pbkdf2 toy_hash toy_primitives) (''hunter2'' @ [CHR 0x00])
       (encrypt (with_pbkdf2 toy_hash toy_primitives) (replicate 32 7) (replicate 12 9)
          ''hunter2'' [1, 2, 3])
     = Inr [1, 2, 3]"
proof -
  have "decrypt (with_pbkdf2 toy_hash toy_primitives) (''hunter2'' @ [CHR 0x00])
       (encrypt (with_pbkdf2 toy_hash toy_primitives) (replicate 32 7) (replicate 12 9)
          ''hunter2'' [1, 2, 3])
     = Inr [1, 2, 3]"
    by (rule decrypt_nul_passphrase)
       (simp_all add: HMAC_BLOCK_def SALT_LEN_def IV_LEN_def toy_roundtrip toy_length)
  then show ?thesis by simp
qed

text \<open>
  Claim C3.  The header of an envelope is \<open>32 + 12 + 8 = 52\<close> bytes, and \<open>decrypt\<close>
  fails with \<open>CorruptData\<close> on every envelope shorter than that, whatever the
  passphrase and whatever the primitives compute (the length test comes first, so no
  key is derived and nothing is decrypted); in particular on every envelope shorter
  than 44 bytes.
\<close>

theorem decrypt_truncated:
  "SALT_LEN + IV_LEN + length MAGIC = 52
   \<and> (length encrypted < 52 \<longrightarrow> decrypt pr P encrypted = Inl CorruptData)
   \<and> (length encrypted < 44 \<longrightarrow> decrypt pr P encrypted = Inl CorruptData)"
  by (simp add: decrypt_def SALT_LEN_def IV_LEN_def length_MAGIC)

theorem decrypt_truncated_witness:
  "length (replicate 51 (0::byte)) < 52
   \<and> decrypt toy_primitives ''hunter2'' (replicate 51 0) = Inl CorruptData
   \<and> decrypt toy_primitives ''hunter2'' (replicate 43 0) = Inl CorruptData"
  using decrypt_truncated [of "replicate 51 0" toy_primitives "''hunter2''"]
    decrypt_truncated [of "replicate 43 0" toy_primitives "''hunter2''"]
  by simp

section \<open>Properties of the calendar\<close>

lemma div_bounds: "k * (a div k) \<le> a \<and> a < k * (a div k) + k" if "0 < k" for a k :: int
  using that mult_div_mod_eq [of k a] pos_mod_bound [of k a] pos_mod_sign [of k a] by linarith

lemma div_succ:
  fixes x k :: int
  assumes "0 < k"
  shows "(x + 1) div k = x div k + (if (x + 1) mod k = 0 then 1 else 0)"
proof (cases "x mod k + 1 = k")
  case True
  have "x + 1 = k * (x div k) + (x mod k + 1)" by simp
  also have "\<dots> = k * (x div k + 1) + 0" using True by (simp add: algebra_simps)
  finally have eq: "x + 1 = k * (x div k + 1) + 0" .
  have "(x + 1) div k = x div k + 1"
    using eq assms by (intro int_div_pos_eq [of _ _ _ 0]) simp_all
  moreover have "(x + 1) mod k = 0"
    using eq assms by (intro int_mod_pos_eq [of _ _ "x div k + 1"]) simp_all
  ultimately show ?thesis by simp
next
  case False
  have r: "0 \<le> x mod k" "x mod k < k" using assms by simp_all
  with False have lt: "x mod k + 1 < k" by linarith
  have eq: "x + 1 = k * (x div k) + (x mod k + 1)" by simp
  have "(x + 1) div k = x div k"
    using eq lt r by (intro int_div_pos_eq [of _ _ _ "x mod k + 1"]) simp_all
  moreover have "(x + 1) mod k = x mod k + 1"
    using eq lt r by (intro int_mod_pos_eq [of _ _ "x div k"]) simp_all
  ultimately show ?thesis using r by simp
qed

lemma mod_shift:
  "(y - 1968) mod 4 = y mod 4" "(y - 1900) mod 100 = y mod 100" "(y - 1600) mod 400 = y mod 400"
  for y :: int
proof -
  have "y - 1968 = y + 4 * (- 492)" "y - 1900 = y + 100 * (- 19)" "y - 1600 = y + 400 * (- 4)"
    by simp_all
  then show "(y - 1968) mod 4 = y mod 4" "(y - 1900) mod 100 = y mod 100"
    "(y - 1600) mod 400 = y mod 400"
    by (simp_all only: mod_mult_self2)
qed

lemma mod_chain: "y mod 400 = 0 \<Longrightarrow> y mod 100 = 0" "y mod 100 = 0 \<Longrightarrow> y mod 4 = 0" for y :: int
proof -
  have "(100::int) dvd 400" "(4::int) dvd 100" by simp_all
  then show "y mod 400 = 0 \<Longrightarrow> y mod 100 = 0" "y mod 100 = 0 \<Longrightarrow> y mod 4 = 0"
    by (auto simp only: mod_eq_0_iff_dvd dest: dvd_trans)
qed

lemma leap_count:
  "(p400 \<longrightarrow> p100) \<Longrightarrow> (p100 \<longrightarrow> p4) \<Longrightarrow>
   (if p4 \<and> (\<not> p100 \<or> p400) then 1 else 0 :: int)
     = (if p4 then 1 else 0) - (if p100 then 1 else 0) + (if p400 then 1 else 0)"
  by (cases p4; cases p100; cases p400) simp_all

lemma step_core:
  fixes n d l y A B C i4 i100 i400 :: int
  assumes "n = 365 * (y - 1969) + (A + i4) - (B + i100) + (C + i400)"
    and "d = 365 * (y - 1970) + A - B + C"
    and "l = i4 - i100 + i400"
  shows "n = d + 365 + l"
  using assms by simp

lemma div4_step: "(y - 1968) div 4 = (y - 1969) div 4 + (if y mod 4 = 0 then 1 else 0)"
  for y :: int
proof -
  have "(y - 1969 + 1) div 4 = (y - 1969) div 4 + (if (y - 1969 + 1) mod 4 = 0 then 1 else 0)"
    by (rule div_succ) simp
  moreover have "y - 1969 + 1 = y - 1968" by simp
  ultimately show ?thesis by (simp only: mod_shift)
qed

lemma div100_step: "(y - 1900) div 100 = (y - 1901) div 100 + (if y mod 100 = 0 then 1 else 0)"
  for y :: int
proof -
  have "(y - 1901 + 1) div 100
      = (y - 1901) div 100 + (if (y - 1901 + 1) mod 100 = 0 then 1 else 0)"
    by (rule div_succ) simp
  moreover have "y - 1901 + 1 = y - 1900" by simp
  ultimately show ?thesis by (simp only: mod_shift)
qed

lemma div400_step: "(y - 1600) div 400 = (y - 1601) div 400 + (if y mod 400 = 0 then 1 else 0)"
  for y :: int
proof -
  have "(y - 1601 + 1) div 400
      = (y - 1601) div 400 + (if (y - 1601 + 1) mod 400 = 0 then 1 else 0)"
    by (rule div_succ) simp
  moreover have "y - 1601 + 1 = y - 1600" by simp
  ultimately show ?thesis by (simp only: mod_shift)
qed

lemma leap_days_sum:
  "leap_days y = (if y mod 4 = 0 then 1 else 0) - (if y mod 100 = 0 then 1 else 0)
     + (if y mod 400 = 0 then 1 else 0)"
proof -
  have c1: "y mod 400 = 0 \<longrightarrow> y mod 100 = 0" using mod_chain(1) [of y] by blast
  have c2: "y mod 100 = 0 \<longrightarrow> y mod 4 = 0" using mod_chain(2) [of y] by blast
  show ?thesis
    unfolding leap_days_def InLeapYear_def by (rule leap_count [OF c1 c2])
qed

lemma DayFromYear_next:
  "DayFromYear (y + 1)
     = 365 * (y - 1969) + (y - 1968) div 4 - (y - 1900) div 100 + (y - 1600) div 400"
proof -
  have "y + 1 - 1969 = y - 1968" "y + 1 - 1901 = y - 1900" "y + 1 - 1601 = y - 1600"
    "y + 1 - 1970 = y - 1969"
    by simp_all
  then show ?thesis
    unfolding DayFromYear_def by (simp only:)
qed

lemma DayFromYear_step: "DayFromYear (y + 1) = DayFromYear y + 365 + leap_days y"
proof (rule step_core)
  show "DayFromYear (y + 1) = 365 * (y - 1969)
      + ((y - 1969) div 4 + (if y mod 4 = 0 then 1 else 0))
      - ((y - 1901) div 100 + (if y mod 100 = 0 then 1 else 0))
      + ((y - 1601) div 400 + (if y mod 400 = 0 then 1 else 0))"
    by (simp only: DayFromYear_next div4_step div100_step div400_step)
  show "DayFromYear y = 365 * (y - 1970) + (y - 1969) div 4 - (y - 1901) div 100
      + (y - 1601) div 400"
    by (simp only: DayFromYear_def)
  show "leap_days y = (if y mod 4 = 0 then 1 else 0) - (if y mod 100 = 0 then 1 else 0)
     + (if y mod 400 = 0 then 1 else 0)"
    by (rule leap_days_sum)
qed

lemma estimate_low: "DayFromYear (1970 + (400 * t) div 146097 - 1) \<le> t"
proof -
  define u where "u = (400 * t) div 146097"
  define a where "a = u div 4"
  define b where "b = (u + 68) div 100"
  define c where "c = (u + 368) div 400"
  have h: "146097 * u \<le> 400 * t" "4 * a \<le> u" "u + 68 < 100 * b + 100" "400 * c \<le> u + 368"
    unfolding u_def a_def b_def c_def using div_bounds [of 146097 "400 * t"]
      div_bounds [of 4 "(400 * t) div 146097"] div_bounds [of 100 "(400 * t) div 146097 + 68"]
      div_bounds [of 400 "(400 * t) div 146097 + 368"]
    by simp_all
  have "400 * (365 * (u - 1) + a - b + c)
      = 146000 * u - 146000 + 100 * (4 * a) - 4 * (100 * b) + 400 * c"
    by simp
  also have "\<dots> \<le> 146000 * u - 146000 + 100 * u - 4 * (u - 31) + (u + 368)"
    using h by simp
  also have "\<dots> \<le> 400 * t"
    using h by simp
  finally have "365 * (u - 1) + a - b + c \<le> t" by simp
  moreover have "DayFromYear (1970 + (400 * t) div 146097 - 1) = 365 * (u - 1) + a - b + c"
    by (simp add: DayFromYear_def u_def a_def b_def c_def add.commute)
  ultimately show ?thesis by simp
qed

lemma estimate_high: "t < DayFromYear (1970 + (400 * t) div 146097 + 2)"
proof -
  define u where "u = (400 * t) div 146097"
  define a where "a = (u + 3) div 4"
  define b where "b = (u + 71) div 100"
  define c where "c = (u + 371) div 400"
  have h: "400 * t < 146097 * u + 146097" "u + 3 < 4 * a + 4" "100 * b \<le> u + 71"
    "u + 371 < 400 * c + 400"
    unfolding u_def a_def b_def c_def using div_bounds [of 146097 "400 * t"]
      div_bounds [of 4 "(400 * t) div 146097 + 3"] div_bounds [of 100 "(400 * t) div 146097 + 71"]
      div_bounds [of 400 "(400 * t) div 146097 + 371"]
    by simp_all
  have "400 * t < 146097 * u + 146097" by (rule h)
  also have "\<dots> \<le> 146000 * u + 292000 + 100 * (u + 3 - 3) - 4 * (u + 71) + (u + 371 - 399)"
    by simp
  also have "\<dots> \<le> 146000 * u + 292000 + 100 * (4 * a) - 4 * (100 * b) + 400 * c"
    using h by simp
  also have "\<dots> = 400 * (365 * (u + 2) + a - b + c)"
    by simp
  finally have "t < 365 * (u + 2) + a - b + c" by simp
  moreover have "DayFromYear (1970 + (400 * t) div 146097 + 2) = 365 * (u + 2) + a - b + c"
    by (simp add: DayFromYear_def u_def a_def b_def c_def add.commute)
  ultimately show ?thesis by simp
qed

lemma leap_days_range: "0 \<le> leap_days y \<and> leap_days y \<le> 1"
  by (simp add: leap_days_def)

lemma YearFromTime_bounds:
  "DayFromYear (YearFromTime t) \<le> t \<and> t < DayFromYear (YearFromTime t + 1)"
proof -
  define y where "y = 1970 + (400 * t) div 146097"
  have low: "DayFromYear (y - 1) \<le> t"
    using estimate_low [of t] by (simp add: y_def)
  have high: "t < DayFromYear (y + 2)"
    using estimate_high [of t] by (simp add: y_def)
  have y1: "y - 1 + 1 = y" and y2: "y + 1 + 1 = y + 2" by simp_all
  consider "t < DayFromYear y" | "DayFromYear y \<le> t" "DayFromYear (y + 1) \<le> t"
    | "DayFromYear y \<le> t" "t < DayFromYear (y + 1)"
    by linarith
  then show ?thesis
  proof cases
    case 1
    then have "YearFromTime t = y - 1"
      by (simp add: YearFromTime_def y_def Let_def)
    with 1 low show ?thesis by (simp add: y1)
  next
    case 2
    then have "YearFromTime t = y + 1"
      by (simp add: YearFromTime_def y_def Let_def)
    with 2 high show ?thesis by (simp add: y2)
  next
    case 3
    then have "YearFromTime t = y"
      by (simp add: YearFromTime_def y_def Let_def)
    with 3 show ?thesis by simp
  qed
qed

lemma DayFromYear_mono: "y \<le> y' \<Longrightarrow> DayFromYear y \<le> DayFromYear y'"
proof (induction y' rule: int_ge_induct)
  case base
  show ?case by simp
next
  case (step i)
  have "DayFromYear i \<le> DayFromYear (i + 1)"
    using DayFromYear_step [of i] leap_days_range [of i] by linarith
  with step.IH show ?case by linarith
qed

lemma YearFromTime_unique:
  assumes "DayFromYear y \<le> t" and "t < DayFromYear (y + 1)"
  shows "YearFromTime t = y"
proof (rule ccontr)
  assume ne: "YearFromTime t \<noteq> y"
  let ?Y = "YearFromTime t"
  have b: "DayFromYear ?Y \<le> t" "t < DayFromYear (?Y + 1)"
    using YearFromTime_bounds [of t] by simp_all
  from ne consider "?Y + 1 \<le> y" | "y + 1 \<le> ?Y" by linarith
  then show False
  proof cases
    case 1
    from DayFromYear_mono [OF 1] b assms show False by linarith
  next
    case 2
    from DayFromYear_mono [OF 2] b assms show False by linarith
  qed
qed

lemma YearFromTime_mono: "t \<le> t' \<Longrightarrow> YearFromTime t \<le> YearFromTime t'"
proof (rule ccontr)
  assume le: "t \<le> t'" and "\<not> YearFromTime t \<le> YearFromTime t'"
  then have "YearFromTime t' + 1 \<le> YearFromTime t" by linarith
  from DayFromYear_mono [OF this] YearFromTime_bounds [of t] YearFromTime_bounds [of t'] le
  show False by linarith
qed

lemma MonthFromTime_range: "0 \<le> MonthFromTime t \<and> MonthFromTime t \<le> 11"
  by (simp add: MonthFromTime_def Let_def)

lemma MakeDay_getters:
  "MakeDay (YearFromTime t) (MonthFromTime t) dt = t - DateFromTime t + dt"
proof -
  have "MonthFromTime t div 12 = 0" "MonthFromTime t mod 12 = MonthFromTime t"
    using MonthFromTime_range [of t] by simp_all
  then show ?thesis
    by (simp add: MakeDay_def Let_def DateFromTime_def DayWithinYear_def)
qed

lemma setDate_getDate: "setDate t (getDate t + n) = t + n"
  by (simp add: setDate_def getDate_def getFullYear_def getMonth_def MakeDay_getters)

lemma addDays_fmtDate: "addDays s n = fmtDate (parseDate s + n)"
  by (simp add: addDays_def Let_def setDate_getDate)

lemma parseDate_fmtDate:
  assumes "YearFromTime t < 0 \<or> 99 < YearFromTime t"
  shows "parseDate (fmtDate t) = t"
proof -
  have "new_Date (YearFromTime t) (MonthFromTime t) (DateFromTime t)
      = MakeDay (YearFromTime t) (MonthFromTime t) (DateFromTime t)"
    using assms by (auto simp: new_Date_def)
  then show ?thesis
    by (simp add: parseDate_def fmtDate_def getFullYear_def getMonth_def getDate_def
        MakeDay_getters)
qed

lemma parseDate_addDays:
  assumes "YearFromTime (parseDate s + n) < 0 \<or> 99 < YearFromTime (parseDate s + n)"
  shows "parseDate (addDays s n) = parseDate s + n"
  using assms by (simp add: addDays_fmtDate parseDate_fmtDate)

lemma daysBetween_addDays:
  assumes "YearFromTime (parseDate s + n) < 0 \<or> 99 < YearFromTime (parseDate s + n)"
  shows "daysBetween s (addDays s n) = n"
  using parseDate_addDays [OF assms] by (simp add: daysBetween_def Let_def)

lemma month_cases:
  fixes m :: int
  assumes "1 \<le> m" "m \<le> 12"
  obtains "m = 1" | "m = 2" | "m = 3" | "m = 4" | "m = 5" | "m = 6" | "m = 7" | "m = 8"
    | "m = 9" | "m = 10" | "m = 11" | "m = 12"
proof -
  have "m \<in> set [1..12]" using assms by simp
  moreover have "[1..12] = [1, 2, 3, 4, 5, 6, 7, 8, 9, 10, 11, 12 :: int]"
    by code_simp
  ultimately have "m = 1 \<or> m = 2 \<or> m = 3 \<or> m = 4 \<or> m = 5 \<or> m = 6 \<or> m = 7
      \<or> m = 8 \<or> m = 9 \<or> m = 10 \<or> m = 11 \<or> m = 12"
    by simp
  with that show thesis by blast
qed

lemma month_start_next:
  assumes "1 \<le> m" "m \<le> 11"
  shows "month_start l m = month_start l (m - 1) + days_in_month l m"
proof -
  from assms have "1 \<le> m" "m \<le> 12" by simp_all
  then show ?thesis
    using assms(2) by (cases m rule: month_cases) (simp_all add: month_start_def days_in_month_def)
qed

lemma days_in_month_pos: "0 \<le> l \<Longrightarrow> 28 \<le> days_in_month l m"
  by (simp add: days_in_month_def)

lemma month_start_mono:
  assumes "0 \<le> l" "0 \<le> a" "a \<le> b" "b \<le> 11"
  shows "month_start l a \<le> month_start l b"
  using assms(3,4)
proof (induction b rule: int_ge_induct)
  case base
  show ?case by simp
next
  case (step i)
  from step have "1 \<le> i + 1" "i + 1 \<le> 11" using assms(2) by simp_all
  from month_start_next [OF this, of l] days_in_month_pos [OF assms(1), of "i + 1"]
  have "month_start l i \<le> month_start l (i + 1)" by simp
  moreover have "month_start l a \<le> month_start l i" using step by simp
  ultimately show ?case by linarith
qed

lemma month_start_year:
  assumes "1 \<le> m" "m \<le> 12" "0 \<le> l" "l \<le> 1"
  shows "0 \<le> month_start l (m - 1) \<and> month_start l (m - 1) + days_in_month l m \<le> 365 + l"
  using assms(1,2)
  by (cases m rule: month_cases) (use assms(3,4) in \<open>simp_all add: month_start_def days_in_month_def\<close>)

lemma parseDate_valid:
  assumes "valid_date (y, m, d)"
  shows "parseDate (y, m, d) = DayFromYear y + month_start (leap_days y) (m - 1) + d - 1"
proof -
  from assms have y: "100 \<le> y" and m: "1 \<le> m" "m \<le> 12"
    by (simp_all add: valid_date_def)
  then have "(m - 1) div 12 = 0" "(m - 1) mod 12 = m - 1" by simp_all
  then show ?thesis
    using y by (simp add: parseDate_def new_Date_def MakeDay_def Let_def)
qed

lemma valid_within_year:
  assumes "valid_date (y, m, d)"
  shows "DayFromYear y \<le> parseDate (y, m, d) \<and> parseDate (y, m, d) < DayFromYear (y + 1)"
proof -
  from assms have m: "1 \<le> m" "m \<le> 12" and d: "1 \<le> d" "d \<le> days_in_month (leap_days y) m"
    by (simp_all add: valid_date_def)
  from month_start_year [OF m, of "leap_days y"] leap_days_range [of y]
  have "0 \<le> month_start (leap_days y) (m - 1)"
    "month_start (leap_days y) (m - 1) + days_in_month (leap_days y) m \<le> 365 + leap_days y"
    by simp_all
  with d show ?thesis
    unfolding parseDate_valid [OF assms] DayFromYear_step by linarith
qed

lemma YearFromTime_valid: "valid_date (y, m, d) \<Longrightarrow> YearFromTime (parseDate (y, m, d)) = y"
  using valid_within_year [of y m d] by (simp add: YearFromTime_unique)

lemma month_table:
  assumes "1 \<le> m" "m \<le> 12" "1 \<le> d" "d \<le> days_in_month l m" "0 \<le> l" "l \<le> 1"
    and "x = month_start l (m - 1) + d - 1"
  shows "(if x < 31 then 0 else if x < 59 + l then 1 else if x < 90 + l then 2
         else if x < 120 + l then 3 else if x < 151 + l then 4 else if x < 181 + l then 5
         else if x < 212 + l then 6 else if x < 243 + l then 7 else if x < 273 + l then 8
         else if x < 304 + l then 9 else if x < 334 + l then 10 else 11) = m - 1"
  using assms(1,2)
  by (cases m rule: month_cases)
     (use assms(3-7) in \<open>simp_all add: month_start_def days_in_month_def\<close>)

lemma fmtDate_parseDate:
  assumes "valid_date (y, m, d)"
  shows "fmtDate (parseDate (y, m, d)) = (y, m, d)"
proof -
  let ?t = "parseDate (y, m, d)"
  let ?l = "leap_days y"
  from assms have m: "1 \<le> m" "m \<le> 12" and d: "1 \<le> d" "d \<le> days_in_month ?l m"
    by (simp_all add: valid_date_def)
  have year: "YearFromTime ?t = y" by (rule YearFromTime_valid [OF assms])
  have within: "DayWithinYear ?t = month_start ?l (m - 1) + d - 1"
    unfolding DayWithinYear_def year by (simp add: parseDate_valid [OF assms])
  have month: "MonthFromTime ?t = m - 1"
    unfolding MonthFromTime_def Let_def year
    using leap_days_range [of y] by (intro month_table [OF m d _ _ within]) simp_all
  have "DateFromTime ?t = d"
    unfolding DateFromTime_def year month within by simp
  with year month show ?thesis
    by (simp add: fmtDate_def getFullYear_def getMonth_def getDate_def)
qed

lemma parseDate_strict_mono:
  assumes "valid_date a" "valid_date b" "a < b"
  shows "parseDate a < parseDate b"
proof -
  obtain y m d where a: "a = (y, m, d)" by (cases a) auto
  obtain y' m' d' where b: "b = (y', m', d')" by (cases b) auto
  from assms(3) have "y < y' \<or> y = y' \<and> (m < m' \<or> m = m' \<and> d < d')"
    unfolding a b by (auto simp: less_prod_def le_less)
  then consider "y < y'" | "y = y'" "m < m'" | "y = y'" "m = m'" "d < d'"
    by blast
  then show ?thesis
  proof cases
    case 1
    then have "y + 1 \<le> y'" by simp
    from DayFromYear_mono [OF this] valid_within_year [of y m d] valid_within_year [of y' m' d']
      assms(1,2)
    show ?thesis unfolding a b by linarith
  next
    case 2
    let ?l = "leap_days y"
    from assms(1,2) have va: "1 \<le> m" "d \<le> days_in_month ?l m" and vb: "m' \<le> 12" "1 \<le> d'"
      unfolding a b by (simp_all add: valid_date_def)
    from 2 va vb have "1 \<le> m" "m \<le> 11" by simp_all
    from month_start_next [OF this, of ?l]
    have "month_start ?l m = month_start ?l (m - 1) + days_in_month ?l m" .
    moreover have "month_start ?l m \<le> month_start ?l (m' - 1)"
      using 2 va vb leap_days_range [of y] by (intro month_start_mono) simp_all
    ultimately have "month_start ?l (m - 1) + d - 1 < month_start ?l (m' - 1) + d' - 1"
      using va vb by linarith
    then show ?thesis
      using assms(1,2) 2 unfolding a b by (simp add: parseDate_valid)
  next
    case 3
    then show ?thesis
      using assms(1,2) unfolding a b by (simp add: parseDate_valid)
  qed
qed

lemma sorted_distinct_days:
  assumes "sorted U" "distinct U" "\<forall>d \<in> set U. valid_date d"
  shows "sorted_wrt (\<lambda>a b. 0 < daysBetween a b) U"
proof -
  from assms(1,2) have "sorted_wrt (<) U"
    by (simp add: strict_sorted_iff)
  then show ?thesis
  proof (rule sorted_wrt_mono_rel [rotated])
    fix a b assume "a \<in> set U" "b \<in> set U" "a < b"
    with assms(3) show "0 < daysBetween a b"
      using parseDate_strict_mono [of a b] by (simp add: daysBetween_def Let_def)
  qed
qed

lemma daysBetween_addDays_plain: "\<not> two_digit_year (parseDate s + n) \<Longrightarrow> daysBetween s (addDays s n) = n"
  by (rule daysBetween_addDays) (auto simp: two_digit_year_def)

lemma two_digit_year_later:
  "\<not> two_digit_year t \<Longrightarrow> 0 \<le> YearFromTime t \<Longrightarrow> t \<le> t' \<Longrightarrow> \<not> two_digit_year t'"
  using YearFromTime_mono [of t t'] by (auto simp: two_digit_year_def)

lemma fertility_days:
  assumes "\<not> two_digit_year (parseDate s - 19)" and "0 \<le> YearFromTime (parseDate s - 19)"
  shows "daysBetween (addDays s (- 14)) s = 14"
    and "daysBetween (addDays (addDays s (- 14)) (- 5)) (addDays s (- 14)) = 5"
    and "daysBetween (addDays (addDays s (- 14)) (- 2)) (addDays s (- 14)) = 2"
proof -
  have later: "\<not> two_digit_year t" if "parseDate s - 19 \<le> t" for t
    using two_digit_year_later [OF assms that] .
  have y14: "\<not> two_digit_year (parseDate s + - 14)"
    by (rule later) simp
  have y16: "\<not> two_digit_year (parseDate s - 16)"
    by (rule later) simp
  have o: "parseDate (addDays s (- 14)) = parseDate s - 14"
    using daysBetween_addDays_plain [OF y14] by (simp add: daysBetween_def Let_def)
  show "daysBetween (addDays s (- 14)) s = 14"
    by (simp add: daysBetween_def Let_def o)
  have "daysBetween (addDays s (- 14)) (addDays (addDays s (- 14)) (- 5)) = - 5"
    by (rule daysBetween_addDays_plain) (simp add: o assms(1))
  then show "daysBetween (addDays (addDays s (- 14)) (- 5)) (addDays s (- 14)) = 5"
    by (simp add: daysBetween_def Let_def)
  have "daysBetween (addDays s (- 14)) (addDays (addDays s (- 14)) (- 2)) = - 2"
    by (rule daysBetween_addDays_plain) (simp add: o y16)
  then show "daysBetween (addDays (addDays s (- 14)) (- 2)) (addDays s (- 14)) = 2"
    by (simp add: daysBetween_def Let_def)
qed

section \<open>Properties of the cycle reconstruction\<close>

lemma dedupe_fold_set:
  "set (foldl (\<lambda>seen x. if x \<in> set seen then seen else seen @ [x]) acc a) = set acc \<union> set a"
  by (induction a arbitrary: acc) auto

lemma dedupe_fold_distinct:
  "distinct acc \<Longrightarrow>
   distinct (foldl (\<lambda>seen x. if x \<in> set seen then seen else seen @ [x]) acc a)"
  by (induction a arbitrary: acc) auto

lemma dedupe_fold_sorted:
  "sorted (acc @ a) \<Longrightarrow>
   sorted (foldl (\<lambda>seen x. if x \<in> set seen then seen else seen @ [x]) acc a)"
proof (induction a arbitrary: acc)
  case Nil
  then show ?case by simp
next
  case (Cons x a)
  show ?case
  proof (cases "x \<in> set acc")
    case True
    from Cons.prems have "sorted (acc @ a)"
      by (auto simp: sorted_append)
    with Cons.IH True show ?thesis by simp
  next
    case False
    from Cons.prems have "sorted ((acc @ [x]) @ a)" by simp
    with Cons.IH [of "acc @ [x]"] False show ?thesis by simp
  qed
qed

lemma set_dedupe: "set (dedupe a) = set a"
  by (simp add: dedupe_def dedupe_fold_set)

lemma distinct_dedupe: "distinct (dedupe a)"
  by (simp add: dedupe_def dedupe_fold_distinct)

lemma sorted_dedupe: "sorted a \<Longrightarrow> sorted (dedupe a)"
  by (simp add: dedupe_def dedupe_fold_sorted)

lemma set_flowDays:
  "set (flowDays dayLogs) = {date l |l. l \<in> set dayLogs \<and> flow_level l \<noteq> FlowNone}"
  by (auto simp: flowDays_def)

lemma unique_flow_dates:
  "dedupe (flowDays dayLogs) =
     sorted_list_of_set {date l |l. l \<in> set dayLogs \<and> flow_level l \<noteq> FlowNone}"
proof -
  have "sorted (dedupe (flowDays dayLogs))"
    by (simp add: sorted_dedupe flowDays_def)
  moreover have "distinct (dedupe (flowDays dayLogs))"
    by (rule distinct_dedupe)
  ultimately have "sorted_list_of_set (set (dedupe (flowDays dayLogs))) = dedupe (flowDays dayLogs)"
    by (rule sorted_list_of_set.idem_if_sorted_distinct)
  then show ?thesis
    by (simp add: set_dedupe set_flowDays)
qed

lemma runs_Cons_not_Nil: "runs (x # xs) \<noteq> []"
  by (induction xs arbitrary: x) (auto split: list.splits)

lemma runs_Cons_hd: "\<exists>r rs. runs (x # xs) = (x # r) # rs"
  by (induction xs arbitrary: x) (auto split: list.splits)

lemma concat_runs: "concat (runs xs) = xs"
  by (induction xs rule: runs.induct) (auto split: list.splits)

lemma runs_nonempty: "r \<in> set (runs xs) \<Longrightarrow> r \<noteq> []"
  by (induction xs arbitrary: r rule: runs.induct) (auto split: list.splits if_splits)

lemma runs_linked: "r \<in> set (runs xs) \<Longrightarrow> linked r"
proof (induction xs arbitrary: r rule: runs.induct)
  case (3 x y ys)
  obtain r' rs where rs: "runs (y # ys) = (y # r') # rs"
    using runs_Cons_hd by blast
  show ?case
  proof (cases "daysBetween x y \<le> 2")
    case True
    with "3.prems" rs have "r = x # y # r' \<or> r \<in> set rs" by auto
    then show ?thesis
    proof
      assume "r = x # y # r'"
      moreover have "linked (y # r')" using "3.IH"(1) [of "y # r'"] True rs by simp
      ultimately show ?thesis using True by simp
    next
      assume "r \<in> set rs"
      then show ?thesis using "3.IH"(1) [of r] True rs by simp
    qed
  next
    case False
    with "3.prems" have "r = [x] \<or> r \<in> set (runs (y # ys))" by auto
    then show ?thesis using "3.IH"(2) [of r] False by auto
  qed
qed simp_all

lemma runs_separated: "separated (runs xs)"
proof (induction xs rule: runs.induct)
  case (3 x y ys)
  obtain r' rs where rs: "runs (y # ys) = (y # r') # rs"
    using runs_Cons_hd by blast
  show ?case
  proof (cases "daysBetween x y \<le> 2")
    case True
    with "3.IH"(1) rs show ?thesis by (cases rs) auto
  next
    case False
    with "3.IH"(2) rs show ?thesis by auto
  qed
qed simp_all


lemma group_loop_runs:
  "group_loop cs s e xs = (cs', s', e') \<Longrightarrow> runs (e # xs) = r # rs \<Longrightarrow>
   cs' @ [closed_cycle s' e'] =
     cs @ closed_cycle s (last r) # map (\<lambda>r. closed_cycle (hd r) (last r)) rs"
proof (induction xs arbitrary: cs s e r rs)
  case Nil
  then show ?case by auto
next
  case (Cons x xs)
  obtain r' rs' where rs': "runs (x # xs) = (x # r') # rs'"
    using runs_Cons_hd by blast
  show ?case
  proof (cases "daysBetween e x \<le> 2")
    case True
    with Cons.prems rs' have loop: "group_loop cs s x xs = (cs', s', e')"
      and r: "r = e # x # r'" "rs = rs'"
      by simp_all
    from Cons.IH [OF loop rs'] r show ?thesis by simp
  next
    case False
    with Cons.prems rs'
    have loop: "group_loop (cs @ [\<lparr>start_date = s, end_date = Some e\<rparr>]) x x xs = (cs', s', e')"
      and r: "r = [e]" "rs = (x # r') # rs'"
      by simp_all
    from Cons.IH [OF loop rs'] r show ?thesis by (simp add: closed_cycle_def)
  qed
qed

lemma rebuildCycles_runs:
  "rebuildCycles dayLogs today =
     (let rs = runs (dedupe (flowDays dayLogs))
      in if rs = [] then []
         else map (\<lambda>r. closed_cycle (hd r) (last r)) (butlast rs) @
              [\<lparr>start_date = hd (last rs),
                end_date = (if daysBetween (last (last rs)) today \<le> 2 then None
                            else Some (last (last rs)))\<rparr>])"
proof (cases "dedupe (flowDays dayLogs)")
  case Nil
  then show ?thesis by (simp add: rebuildCycles_def)
next
  case (Cons u0 rest)
  obtain cs' s' e' where loop: "group_loop [] u0 u0 rest = (cs', s', e')"
    by (cases "group_loop [] u0 u0 rest") auto
  obtain r' rs' where rs': "runs (u0 # rest) = (u0 # r') # rs'"
    using runs_Cons_hd by blast
  let ?span = "\<lambda>r. closed_cycle (hd r) (last r)"
  let ?rs = "runs (u0 # rest)"
  from group_loop_runs [OF loop rs']
  have eq: "cs' @ [closed_cycle s' e'] = map ?span ?rs"
    using rs' by simp
  have ne: "?rs \<noteq> []" using rs' by simp
  from eq have "butlast (cs' @ [closed_cycle s' e']) = butlast (map ?span ?rs)"
    by simp
  then have cs': "cs' = map ?span (butlast ?rs)"
    by (simp add: map_butlast)
  from eq have "last (cs' @ [closed_cycle s' e']) = last (map ?span ?rs)"
    by simp
  then have "closed_cycle s' e' = ?span (last ?rs)"
    using ne by (simp add: last_map)
  then have se: "s' = hd (last ?rs)" "e' = last (last ?rs)"
    by (simp_all add: closed_cycle_def)
  show ?thesis
    using Cons loop cs' se ne by (simp add: rebuildCycles_def Let_def)
qed

lemma ex_runs: "runs [(2024, 1, 1), (2024, 1, 2), (2024, 1, 3)] = [[(2024, 1, 1), (2024, 1, 2), (2024, 1, 3)]]"
  by code_simp

lemma ex_sorted: "sorted_list_of_set {(2024, 1, 1), (2024, 1, 2), (2024, 1, 3 :: int)} = [(2024::int, 1::int, 1), (2024, 1, 2), (2024, 1, 3)]"
proof -
  have "sorted_list_of_set (set [(2024::int, 1::int, 1::int), (2024, 1, 2), (2024, 1, 3)]) = [(2024, 1, 1), (2024, 1, 2), (2024, 1, 3)]"
    by (rule sorted_list_of_set.idem_if_sorted_distinct) simp_all
  then show ?thesis by simp
qed

lemma ex_valid:
  "\<forall>d \<in> set [(2024, 1, 1), (2024, 1, 2), (2024, 1, 3)]. valid_date d"
  by code_simp

text \<open>
  Claim C7.  \<open>rebuildCycles\<close> works on the distinct dates with flow, sorted
  ascending, and cuts them into runs: the runs concatenated give back the dates, inside
  a run every date is at most 2 days after the one before it, and from the end of a run
  to the start of the next there are more than 2 days.  The cycles are the runs in
  order: each cycle starts at the first date of its run and ends at the last date of its
  run (the final cycle may instead be open).  When the dates are valid, every date is
  at least one day after the dates before it, so that being at most 2 days after the end
  of the run is being within 2 days of it.  An empty input gives the empty list, and
  whenever the dates with flow are 2024-01-01, 2024-01-02 and 2024-01-03 the result is
  the single cycle from 2024-01-01 to 2024-01-03, once today is more than 2 days after
  2024-01-03.
\<close>

theorem rebuildCycles_groups_runs:
  "(let U = dedupe (flowDays dayLogs); rs = runs U; cs = rebuildCycles dayLogs today
    in U = sorted_list_of_set {date l |l. l \<in> set dayLogs \<and> flow_level l \<noteq> FlowNone}
       \<and> concat rs = U
       \<and> (\<forall>r \<in> set rs. r \<noteq> [] \<and> linked r)
       \<and> separated rs
       \<and> map start_date cs = map hd rs
       \<and> (\<forall>i < length rs. end_date (cs ! i) = Some (last (rs ! i))
              \<or> Suc i = length rs \<and> end_date (cs ! i) = None)
       \<and> ((\<forall>d \<in> set U. valid_date d) \<longrightarrow> sorted_wrt (\<lambda>a b. 0 < daysBetween a b) U))
   \<and> rebuildCycles [] today = []
   \<and> ({date l |l. l \<in> set exLogs \<and> flow_level l \<noteq> FlowNone}
          = {(2024, 1, 1), (2024, 1, 2), (2024, 1, 3)}
        \<and> 2 < daysBetween (2024, 1, 3) today
      \<longrightarrow> rebuildCycles exLogs today = [closed_cycle (2024, 1, 1) (2024, 1, 3)])"
proof -
  let ?U = "dedupe (flowDays dayLogs)"
  let ?rs = "runs ?U"
  let ?cs = "rebuildCycles dayLogs today"
  let ?span = "\<lambda>r. closed_cycle (hd r) (last r)"
  have cs: "?cs = (if ?rs = [] then []
      else map ?span (butlast ?rs) @
           [\<lparr>start_date = hd (last ?rs),
             end_date = (if daysBetween (last (last ?rs)) today \<le> 2 then None
                         else Some (last (last ?rs)))\<rparr>])"
    using rebuildCycles_runs [of dayLogs today] by (simp add: Let_def)
  have starts: "map start_date ?cs = map hd ?rs"
  proof (cases "?rs = []")
    case True
    with cs show ?thesis by simp
  next
    case False
    then have "map hd ?rs = map hd (butlast ?rs) @ [hd (last ?rs)]"
      by (metis append_butlast_last_id list.simps(8,9) map_append)
    with cs False show ?thesis by (simp add: closed_cycle_def comp_def)
  qed
  have ends: "\<forall>i < length ?rs. end_date (?cs ! i) = Some (last (?rs ! i))
              \<or> Suc i = length ?rs \<and> end_date (?cs ! i) = None"
  proof (intro allI impI)
    fix i assume i: "i < length ?rs"
    then have ne: "?rs \<noteq> []" by auto
    show "end_date (?cs ! i) = Some (last (?rs ! i))
              \<or> Suc i = length ?rs \<and> end_date (?cs ! i) = None"
    proof (cases "Suc i = length ?rs")
      case True
      then have "i = length (map ?span (butlast ?rs))" by simp
      then have "?cs ! i = \<lparr>start_date = hd (last ?rs),
             end_date = (if daysBetween (last (last ?rs)) today \<le> 2 then None
                         else Some (last (last ?rs)))\<rparr>"
        using cs ne by (simp add: nth_append)
      moreover have "last ?rs = ?rs ! i"
        using True ne by (metis diff_Suc_1 last_conv_nth)
      ultimately show ?thesis using True by simp
    next
      case False
      with i have lt: "i < length (butlast ?rs)" by simp
      then have "?cs ! i = ?span (butlast ?rs ! i)"
        using cs ne by (simp add: nth_append)
      then show ?thesis using lt by (simp add: closed_cycle_def nth_butlast)
    qed
  qed
  have example: "rebuildCycles exLogs today = [closed_cycle (2024, 1, 1) (2024, 1, 3)]"
    if flows: "{date l |l. l \<in> set exLogs \<and> flow_level l \<noteq> FlowNone}
          = {(2024, 1, 1), (2024, 1, 2), (2024, 1, 3)}"
      and late: "2 < daysBetween (2024, 1, 3) today"
  proof -
    have "dedupe (flowDays exLogs) = [(2024, 1, 1), (2024, 1, 2), (2024, 1, 3)]"
      using flows by (simp add: unique_flow_dates ex_sorted)
    then have "runs (dedupe (flowDays exLogs)) = [[(2024, 1, 1), (2024, 1, 2), (2024, 1, 3)]]"
      by (simp only: ex_runs)
    with rebuildCycles_runs [of exLogs today] show ?thesis
      using late by (simp add: closed_cycle_def)
  qed
  have ascending: "(\<forall>d \<in> set ?U. valid_date d) \<longrightarrow>
      sorted_wrt (\<lambda>a b. 0 < daysBetween a b) ?U"
    using sorted_distinct_days [of ?U] distinct_dedupe [of "flowDays dayLogs"]
      sorted_dedupe [of "flowDays dayLogs"]
    by (simp add: flowDays_def)
  have empty: "rebuildCycles [] today = []"
    by (simp add: rebuildCycles_def dedupe_def flowDays_def)
  have inside: "\<forall>r \<in> set ?rs. r \<noteq> [] \<and> linked r"
    using runs_nonempty [of _ ?U] runs_linked [of _ ?U] by blast
  show ?thesis
    unfolding Let_def
    using unique_flow_dates [of dayLogs] concat_runs [of ?U] inside runs_separated [of ?U]
      starts ends ascending empty example
    by blast
qed

theorem rebuildCycles_groups_runs_witness:
  "2 < daysBetween (2024, 1, 3) (2024, 2, 1)
   \<and> rebuildCycles [flow_on (2024, 1, 2), flow_on (2024, 1, 1), flow_on (2024, 1, 3),
         flow_on (2024, 1, 2)] (2024, 2, 1)
       = [closed_cycle (2024, 1, 1) (2024, 1, 3)]
   \<and> sorted_wrt (\<lambda>a b. 0 < daysBetween a b) [(2024, 1, 1), (2024, 1, 2), (2024, 1, 3)]"
proof -
  let ?logs = "[flow_on (2024, 1, 2), flow_on (2024, 1, 1), flow_on (2024, 1, 3),
         flow_on (2024, 1, 2)]"
  have flows: "{date l |l. l \<in> set ?logs \<and> flow_level l \<noteq> FlowNone}
          = {(2024, 1, 1), (2024, 1, 2), (2024, 1, 3)}"
  proof -
    have "{date l |l. l \<in> set ?logs \<and> flow_level l \<noteq> FlowNone} = set (flowDays ?logs)"
      by (simp only: set_flowDays)
    also have "\<dots> = {(2024, 1, 1), (2024, 1, 2), (2024, 1, 3)}"
      by (auto simp: flowDays_def flow_on_def)
    finally show ?thesis .
  qed
  have late: "2 < daysBetween (2024, 1, 3) (2024, 2, 1)"
    by code_simp
  have U: "dedupe (flowDays ?logs) = [(2024, 1, 1), (2024, 1, 2), (2024, 1, 3)]"
    using flows by (simp add: unique_flow_dates ex_sorted)
  from rebuildCycles_groups_runs [of ?logs "(2024, 2, 1)" ?logs]
  have "rebuildCycles ?logs (2024, 2, 1) = [closed_cycle (2024, 1, 1) (2024, 1, 3)]"
    and "(\<forall>d \<in> set [(2024, 1, 1), (2024, 1, 2), (2024, 1, 3)]. valid_date d) \<longrightarrow>
      sorted_wrt (\<lambda>a b. 0 < daysBetween a b) [(2024, 1, 1), (2024, 1, 2), (2024, 1, 3)]"
    unfolding Let_def U using flows late by blast+
  with ex_valid late show ?thesis by blast
qed

lemma within_or_after: "d \<le> 2 \<longleftrightarrow> \<bar>d\<bar> \<le> 2 \<or> d < 0" for d :: int
  by (cases "d < 0") simp_all

lemma final_open:
  fixes d :: int and e :: "'a option"
  assumes "e = (if d \<le> 2 then None else Some x)"
  shows "(e = None \<longleftrightarrow> \<bar>d\<bar> \<le> 2 \<or> d < 0) \<and> (e \<noteq> None \<longrightarrow> e = Some x)"
proof (cases "d \<le> 2")
  case True
  then have "\<bar>d\<bar> \<le> 2 \<or> d < 0" by (rule within_or_after [THEN iffD1])
  moreover from True assms have "e = None" by simp
  ultimately show ?thesis by blast
next
  case False
  then have "\<not> (\<bar>d\<bar> \<le> 2 \<or> d < 0)" using within_or_after [THEN iffD2, of d] by blast
  moreover from False assms have "e = Some x" by simp
  ultimately show ?thesis by blast
qed

text \<open>
  Claim C8, amended.  The list has one cycle for each run, and it is not empty exactly
  when some day log has flow.  Every cycle before the final one is closed with the last
  date of its run.  The final cycle is open exactly when the last flow date of the
  final run is within 2 days of today or after today, that is when \<open>daysBetween\<close>
  from it to today is at most 2; otherwise it is closed with that date.
\<close>

theorem rebuildCycles_final_cycle:
  "(let rs = runs (dedupe (flowDays dayLogs)); cs = rebuildCycles dayLogs today
    in length cs = length rs
       \<and> (cs \<noteq> [] \<longleftrightarrow> (\<exists>l \<in> set dayLogs. flow_level l \<noteq> FlowNone))
       \<and> (\<forall>i. Suc i < length cs \<longrightarrow> end_date (cs ! i) = Some (last (rs ! i)))
       \<and> (cs \<noteq> [] \<longrightarrow>
            (end_date (last cs) = None \<longleftrightarrow>
               \<bar>daysBetween (last (last rs)) today\<bar> \<le> 2
               \<or> daysBetween (last (last rs)) today < 0)
            \<and> (end_date (last cs) \<noteq> None \<longrightarrow> end_date (last cs) = Some (last (last rs)))))"
proof -
  let ?U = "dedupe (flowDays dayLogs)"
  let ?rs = "runs ?U"
  let ?cs = "rebuildCycles dayLogs today"
  let ?span = "\<lambda>r. closed_cycle (hd r) (last r)"
  have cs: "?cs = (if ?rs = [] then []
      else map ?span (butlast ?rs) @
           [\<lparr>start_date = hd (last ?rs),
             end_date = (if daysBetween (last (last ?rs)) today \<le> 2 then None
                         else Some (last (last ?rs)))\<rparr>])"
    using rebuildCycles_runs [of dayLogs today] by (simp add: Let_def)
  have len: "length ?cs = length ?rs"
    using cs by simp
  have "?rs = [] \<longleftrightarrow> ?U = []"
    by (cases ?U) (simp_all add: runs_Cons_not_Nil)
  also have "\<dots> \<longleftrightarrow> set ?U = {}" by simp
  also have "\<dots> \<longleftrightarrow> \<not> (\<exists>l \<in> set dayLogs. flow_level l \<noteq> FlowNone)"
    unfolding set_dedupe set_flowDays by blast
  finally have ne: "?cs \<noteq> [] \<longleftrightarrow> (\<exists>l \<in> set dayLogs. flow_level l \<noteq> FlowNone)"
    using len by (metis length_0_conv)
  have earlier: "end_date (?cs ! i) = Some (last (?rs ! i))" if "Suc i < length ?cs" for i
  proof -
    from that len have lt: "i < length (butlast ?rs)" and "?rs \<noteq> []" by auto
    then have "?cs ! i = ?span (butlast ?rs ! i)"
      using cs by (simp add: nth_append)
    then show ?thesis using lt by (simp add: closed_cycle_def nth_butlast)
  qed
  have final: "end_date (last ?cs) =
              (if daysBetween (last (last ?rs)) today \<le> 2 then None
               else Some (last (last ?rs)))" if "?cs \<noteq> []"
  proof -
    from that len have "?rs \<noteq> []" by auto
    with cs have "last ?cs = \<lparr>start_date = hd (last ?rs),
             end_date = (if daysBetween (last (last ?rs)) today \<le> 2 then None
                         else Some (last (last ?rs)))\<rparr>"
      by simp
    then show ?thesis by simp
  qed
  have "open": "(end_date (last ?cs) = None \<longleftrightarrow>
        \<bar>daysBetween (last (last ?rs)) today\<bar> \<le> 2 \<or> daysBetween (last (last ?rs)) today < 0)
      \<and> (end_date (last ?cs) \<noteq> None \<longrightarrow> end_date (last ?cs) = Some (last (last ?rs)))"
    if "?cs \<noteq> []"
    using final [OF that] by (rule final_open)
  show ?thesis
    unfolding Let_def using len ne earlier "open" by blast
qed

theorem rebuildCycles_final_cycle_witness:
  "rebuildCycles [flow_on (2024, 1, 1), flow_on (2024, 1, 2), flow_on (2024, 1, 10)]
       (2024, 1, 11) \<noteq> []
   \<and> daysBetween (2024, 1, 10) (2024, 1, 11) \<le> 2
   \<and> end_date (last (rebuildCycles
         [flow_on (2024, 1, 1), flow_on (2024, 1, 2), flow_on (2024, 1, 10)] (2024, 1, 11)))
       = None
   \<and> end_date (rebuildCycles
         [flow_on (2024, 1, 1), flow_on (2024, 1, 2), flow_on (2024, 1, 10)] (2024, 1, 11) ! 0)
       = Some (2024, 1, 2)"
proof -
  let ?logs = "[flow_on (2024, 1, 1), flow_on (2024, 1, 2), flow_on (2024, 1, 10)]"
  let ?cs = "rebuildCycles ?logs (2024, 1, 11)"
  have flow: "\<exists>l \<in> set ?logs. flow_level l \<noteq> FlowNone"
    by (simp add: flow_on_def)
  have rs: "runs (dedupe (flowDays ?logs))
      = [[(2024, 1, 1), (2024, 1, 2)], [(2024, 1, 10)]]"
    by code_simp
  have near: "daysBetween (2024, 1, 10) (2024, 1, 11) \<le> 2"
    by code_simp
  from rebuildCycles_final_cycle [of ?logs "(2024, 1, 11)"]
  have len: "length ?cs = 2"
    and ne: "?cs \<noteq> []"
    and earlier: "\<forall>i. Suc i < length ?cs \<longrightarrow>
        end_date (?cs ! i) = Some (last ([[(2024, 1, 1), (2024, 1, 2)], [(2024, 1, 10)]] ! i))"
    and final: "?cs \<noteq> [] \<longrightarrow> (end_date (last ?cs) = None \<longleftrightarrow>
        \<bar>daysBetween (2024, 1, 10) (2024, 1, 11)\<bar> \<le> 2
        \<or> daysBetween (2024, 1, 10) (2024, 1, 11) < 0)"
    unfolding Let_def rs using flow by simp_all
  from earlier len have "end_date (?cs ! 0) = Some (2024, 1, 2)"
    by simp
  moreover from near have "\<bar>daysBetween (2024, 1, 10) (2024, 1, 11)\<bar> \<le> 2
      \<or> daysBetween (2024, 1, 10) (2024, 1, 11) < 0"
    by (rule within_or_after [THEN iffD1])
  ultimately show ?thesis
    using ne final near by blast
qed

text \<open>
  Claim C8 as stated fails for a final run that ends in the future: with the only flow
  on 2024-01-20 and today 2024-01-01, the two dates are 19 days apart, not within 2
  days, and the cycle is left open.
\<close>

theorem rebuildCycles_final_cycle_counterexample:
  "\<not> (end_date (last (rebuildCycles [flow_on (2024, 1, 20)] (2024, 1, 1))) = None
       \<longleftrightarrow> \<bar>daysBetween (2024, 1, 20) (2024, 1, 1)\<bar> \<le> 2)"
  by code_simp

section \<open>Properties of the prediction engine\<close>




lemma length_completed:
  "length (completed_cycles cycles) = length (filter (\<lambda>c. end_date c \<noteq> None) cycles)"
  by (simp add: completed_cycles_def)







lemma length_cycleLengths: "length (cycleLengths_of recent) = length recent - 1"
  by (simp add: cycleLengths_of_def)

lemma length_slice_last: "length (slice_last n a) = min n (length a)"
  by (simp add: slice_last_def)




lemma predict_Some:
  assumes "2 \<le> length (completed_cycles cycles)"
  shows "predict cycles =
     (let completed = completed_cycles cycles;
          recent = slice_last 6 completed;
          cycleLengths = cycleLengths_of recent;
          avgCycle = mean cycleLengths;
          predictedStart =
            addDays (start_date (completed ! (length completed - 1))) (Math_round avgCycle)
      in Some \<lparr>predicted_start = predictedStart,
                predicted_end = addDays predictedStart
                  (max 0 (Math_round (mean (periodLengths_of recent)) - 1)),
                confidence = Math_max (1 / 10) (Math_min (95 / 100)
                  (js_sub 1 (js_div (stdDev cycleLengths) avgCycle)))\<rparr>)"
proof -
  have "2 \<le> length (slice_last 6 (completed_cycles cycles))"
    using assms by (simp add: length_slice_last)
  then have "length (cycleLengths_of (slice_last 6 (completed_cycles cycles))) \<noteq> 0"
    and "length (periodLengths_of (slice_last 6 (completed_cycles cycles))) \<noteq> 0"
    by (auto simp: length_cycleLengths periodLengths_of_def)
  then show ?thesis
    using assms by (simp add: predict_def Let_def)
qed

lemma predict_None_iff:
  "predict cycles = None \<longleftrightarrow> length (filter (\<lambda>c. end_date c \<noteq> None) cycles) < 2"
proof (cases "2 \<le> length (completed_cycles cycles)")
  case True
  then show ?thesis
    using predict_Some [OF True] by (simp add: Let_def length_completed)
next
  case False
  then show ?thesis
    by (simp add: predict_def Let_def length_completed)
qed

lemma fertilityWindow_None_iff: "fertilityWindow cycles = None \<longleftrightarrow> predict cycles = None"
  by (simp add: fertilityWindow_def Let_def split: option.splits)

lemma confidence_clamped:
  "Math_max (1 / 10) (Math_min (95 / 100) (js_sub 1 (js_div sd avg))) = NaN
   \<or> (\<exists>r. Math_max (1 / 10) (Math_min (95 / 100) (js_sub 1 (js_div sd avg))) = Fin r
          \<and> 1 / 10 \<le> r \<and> r \<le> 95 / 100)"
proof -
  have clamp: "(1 / 10 :: real) \<le> max (1 / 10) (min (95 / 100) x)
      \<and> max (1 / 10) (min (95 / 100) x) \<le> 95 / 100" for x :: real
    by (simp add: max_def min_def)
  show ?thesis
  proof (cases "avg = 0")
    case False
    then have "Math_max (1 / 10) (Math_min (95 / 100) (js_sub 1 (js_div sd avg)))
        = Fin (max (1 / 10) (min (95 / 100) (1 - sd / avg)))"
      by (simp add: js_div_def)
    with clamp [of "1 - sd / avg"] show ?thesis by blast
  next
    case True
    show ?thesis
    proof (cases "sd = 0")
      case True
      with \<open>avg = 0\<close> show ?thesis by (simp add: js_div_def)
    next
      case False
      show ?thesis
      proof (cases "0 < sd")
        case True
        with \<open>avg = 0\<close> show ?thesis
          by (intro disjI2 exI [of _ "1 / 10"]) (simp add: js_div_def)
      next
        case False
        with \<open>avg = 0\<close> \<open>sd \<noteq> 0\<close> show ?thesis
          by (intro disjI2 exI [of _ "95 / 100"]) (simp add: js_div_def)
      qed
    qed
  qed
qed


lemma start_date_closed_cycle: "start_date (closed_cycle s e) = s"
  by (simp add: closed_cycle_def)

lemma dup_completed:
  "completed_cycles [closed_cycle (2024, 1, 1) (2024, 1, 5), closed_cycle (2024, 1, 1) (2024, 1, 5)]
   = [closed_cycle (2024, 1, 1) (2024, 1, 5), closed_cycle (2024, 1, 1) (2024, 1, 5)]"
  by code_simp

lemma dup_cycleLengths:
  "cycleLengths_of [closed_cycle (2024, 1, 1) (2024, 1, 5), closed_cycle (2024, 1, 1) (2024, 1, 5)]
   = [0]"
  by code_simp

lemma dup_periodLengths:
  "periodLengths_of [closed_cycle (2024, 1, 1) (2024, 1, 5), closed_cycle (2024, 1, 1) (2024, 1, 5)]
   = [5, 5]"
  by code_simp

lemma dup_addDays: "addDays (2024, 1, 1) 0 = (2024, 1, 1)" "addDays (2024, 1, 1) 4 = (2024, 1, 5)"
  by code_simp+

text \<open>
  Claim C4.  The confidence is meant to lie between 0.1 and 0.95.  For two closed cycles
  that start on the same day the only cycle length is 0, so the mean and the standard
  deviation are both 0, the quotient is \<open>0 / 0\<close>, and \<open>Math.min\<close> and
  \<open>Math.max\<close> pass the \<open>NaN\<close> through: the prediction that \<open>predict\<close> returns has
  the confidence \<open>NaN\<close>, which is not in the interval.
\<close>

theorem predict_confidence_NaN:
  "predict [closed_cycle (2024, 1, 1) (2024, 1, 5), closed_cycle (2024, 1, 1) (2024, 1, 5)]
   = Some \<lparr>predicted_start = (2024, 1, 1), predicted_end = (2024, 1, 5), confidence = NaN\<rparr>"
  unfolding predict_def dup_completed Let_def
  by (simp add: slice_last_def dup_cycleLengths dup_periodLengths mean_def stdDev_def
      Math_round_def dup_addDays start_date_closed_cycle js_div_def)





text \<open>
  Claim C5.  \<open>predict\<close> returns none exactly when the input has fewer than 2 closed
  cycles, \<open>fertilityWindow\<close> returns none then as well, and \<open>rebuildCycles\<close> returns
  the empty list when no day log has flow.  Too little history is a value of the
  functions, which have no failing branch.
\<close>

theorem insufficient_history:
  "(predict cycles = None \<longleftrightarrow> length (filter (\<lambda>c. end_date c \<noteq> None) cycles) < 2)
   \<and> (length (filter (\<lambda>c. end_date c \<noteq> None) cycles) < 2 \<longrightarrow> fertilityWindow cycles = None)
   \<and> ((\<forall>l \<in> set dayLogs. flow_level l = FlowNone) \<longrightarrow> rebuildCycles dayLogs today = [])"
proof -
  have "rebuildCycles dayLogs today = []" if "\<forall>l \<in> set dayLogs. flow_level l = FlowNone"
  proof -
    from that have "filter (\<lambda>l. flow_level l \<noteq> FlowNone) dayLogs = []"
      by (simp add: filter_empty_conv)
    then show ?thesis
      by (simp add: rebuildCycles_def flowDays_def dedupe_def)
  qed
  then show ?thesis
    by (simp add: predict_None_iff fertilityWindow_None_iff)
qed

theorem insufficient_history_witness:
  "length (filter (\<lambda>c. end_date c \<noteq> None)
      [closed_cycle (2024, 1, 1) (2024, 1, 5), open_cycle (2024, 1, 29)]) < 2
   \<and> predict [closed_cycle (2024, 1, 1) (2024, 1, 5), open_cycle (2024, 1, 29)] = None
   \<and> fertilityWindow [closed_cycle (2024, 1, 1) (2024, 1, 5), open_cycle (2024, 1, 29)] = None
   \<and> rebuildCycles [\<lparr>date = (2024, 1, 1), flow_level = FlowNone, notes_text = ''rest''\<rparr>]
        (2024, 1, 2) = []"
proof -
  let ?cycles = "[closed_cycle (2024, 1, 1) (2024, 1, 5), open_cycle (2024, 1, 29)]"
  let ?logs = "[\<lparr>date = (2024, 1, 1), flow_level = FlowNone, notes_text = ''rest''\<rparr>]"
  have few: "length (filter (\<lambda>c. end_date c \<noteq> None) ?cycles) < 2"
    by (simp add: closed_cycle_def open_cycle_def)
  have none: "\<forall>l \<in> set ?logs. flow_level l = FlowNone"
    by simp
  from insufficient_history [of ?cycles ?logs "(2024, 1, 2)"] few none
  show ?thesis by blast
qed






lemma fw_addDays:
  "addDays (2024, 3, 1) (- 14) = (2024, 2, 16)"
  "addDays (2024, 2, 16) (- 5) = (2024, 2, 11)"
  "addDays (2024, 2, 16) (- 2) = (2024, 2, 14)"
  by code_simp+

text \<open>
  Claim C9.  \<open>fertilityWindow\<close> returns none exactly when \<open>predict\<close> does.
  Otherwise the ovulation day is the predicted start minus 14 days, the fertile window
  starts 5 days and the peak 2 days before the ovulation day, and both end on it; the
  subtractions are those of \<open>addDays\<close>, and counted in days the distances are 14, 5
  and 2 whenever the dates lie after the year 99.  A predicted start of 2024-03-01
  gives the ovulation day 2024-02-16, the fertile start 2024-02-11 and the peak start
  2024-02-14.
\<close>

theorem fertilityWindow_fields:
  "(fertilityWindow cycles = None \<longleftrightarrow> predict cycles = None)
   \<and> (\<forall>p. predict cycles = Some p \<longrightarrow>
        (\<exists>w. fertilityWindow cycles = Some w
           \<and> ovulation_day w = addDays (predicted_start p) (- 14)
           \<and> fertile_start w = addDays (ovulation_day w) (- 5)
           \<and> fertile_end w = ovulation_day w
           \<and> peak_start w = addDays (ovulation_day w) (- 2)
           \<and> peak_end w = ovulation_day w
           \<and> (99 < YearFromTime (parseDate (predicted_start p) - 19) \<longrightarrow>
                daysBetween (ovulation_day w) (predicted_start p) = 14
                \<and> daysBetween (fertile_start w) (ovulation_day w) = 5
                \<and> daysBetween (peak_start w) (ovulation_day w) = 2)
           \<and> (predicted_start p = (2024, 3, 1) \<longrightarrow>
                ovulation_day w = (2024, 2, 16) \<and> fertile_start w = (2024, 2, 11)
                \<and> peak_start w = (2024, 2, 14))))"
proof (intro conjI allI impI)
  show "fertilityWindow cycles = None \<longleftrightarrow> predict cycles = None"
    by (rule fertilityWindow_None_iff)
next
  fix p assume p: "predict cycles = Some p"
  let ?s = "predicted_start p"
  let ?o = "addDays ?s (- 14)"
  let ?w = "\<lparr>fertile_start = addDays ?o (- 5), fertile_end = ?o, ovulation_day = ?o,
            peak_start = addDays ?o (- 2), peak_end = ?o\<rparr>"
  have w: "fertilityWindow cycles = Some ?w"
    using p by (simp add: fertilityWindow_def Let_def)
  have example: "?s = (2024, 3, 1) \<longrightarrow>
      ovulation_day ?w = (2024, 2, 16) \<and> fertile_start ?w = (2024, 2, 11)
      \<and> peak_start ?w = (2024, 2, 14)"
    by (simp add: fw_addDays)
  have days: "99 < YearFromTime (parseDate ?s - 19) \<longrightarrow>
      daysBetween (ovulation_day ?w) ?s = 14
      \<and> daysBetween (fertile_start ?w) (ovulation_day ?w) = 5
      \<and> daysBetween (peak_start ?w) (ovulation_day ?w) = 2"
  proof
    assume y: "99 < YearFromTime (parseDate ?s - 19)"
    then have "\<not> two_digit_year (parseDate ?s - 19)" "0 \<le> YearFromTime (parseDate ?s - 19)"
      by (simp_all add: two_digit_year_def)
    from fertility_days [OF this]
    show "daysBetween (ovulation_day ?w) ?s = 14
      \<and> daysBetween (fertile_start ?w) (ovulation_day ?w) = 5
      \<and> daysBetween (peak_start ?w) (ovulation_day ?w) = 2"
      by simp
  qed
  have fields: "ovulation_day ?w = addDays ?s (- 14)"
    "fertile_start ?w = addDays (ovulation_day ?w) (- 5)"
    "fertile_end ?w = ovulation_day ?w"
    "peak_start ?w = addDays (ovulation_day ?w) (- 2)"
    "peak_end ?w = ovulation_day ?w"
    by simp_all
  from w fields days example
  show "\<exists>w. fertilityWindow cycles = Some w
           \<and> ovulation_day w = addDays (predicted_start p) (- 14)
           \<and> fertile_start w = addDays (ovulation_day w) (- 5)
           \<and> fertile_end w = ovulation_day w
           \<and> peak_start w = addDays (ovulation_day w) (- 2)
           \<and> peak_end w = ovulation_day w
           \<and> (99 < YearFromTime (parseDate (predicted_start p) - 19) \<longrightarrow>
                daysBetween (ovulation_day w) (predicted_start p) = 14
                \<and> daysBetween (fertile_start w) (ovulation_day w) = 5
                \<and> daysBetween (peak_start w) (ovulation_day w) = 2)
           \<and> (predicted_start p = (2024, 3, 1) \<longrightarrow>
                ovulation_day w = (2024, 2, 16) \<and> fertile_start w = (2024, 2, 11)
                \<and> peak_start w = (2024, 2, 14))"
    by blast
qed

lemma march_completed:
  "completed_cycles [closed_cycle (2024, 1, 5) (2024, 1, 9), closed_cycle (2024, 2, 2) (2024, 2, 6)]
   = [closed_cycle (2024, 1, 5) (2024, 1, 9), closed_cycle (2024, 2, 2) (2024, 2, 6)]"
  by code_simp

lemma march_cycleLengths:
  "cycleLengths_of [closed_cycle (2024, 1, 5) (2024, 1, 9), closed_cycle (2024, 2, 2) (2024, 2, 6)]
   = [28]"
  by code_simp

lemma march_periodLengths:
  "periodLengths_of [closed_cycle (2024, 1, 5) (2024, 1, 9), closed_cycle (2024, 2, 2) (2024, 2, 6)]
   = [5, 5]"
  by code_simp

lemma march_addDays: "addDays (2024, 2, 2) 28 = (2024, 3, 1)" "addDays (2024, 3, 1) 4 = (2024, 3, 5)"
  by code_simp+

lemma march_predict:
  "predict [closed_cycle (2024, 1, 5) (2024, 1, 9), closed_cycle (2024, 2, 2) (2024, 2, 6)]
   = Some \<lparr>predicted_start = (2024, 3, 1), predicted_end = (2024, 3, 5),
            confidence = Fin (95 / 100)\<rparr>"
  unfolding predict_def march_completed Let_def
  by (simp add: slice_last_def march_cycleLengths march_periodLengths mean_def stdDev_def
        Math_round_def march_addDays start_date_closed_cycle js_div_def)

lemma march_year: "99 < YearFromTime (parseDate (2024, 3, 1) - 19)"
  by code_simp

theorem fertilityWindow_fields_witness:
  "predict [closed_cycle (2024, 1, 5) (2024, 1, 9), closed_cycle (2024, 2, 2) (2024, 2, 6)]
     = Some \<lparr>predicted_start = (2024, 3, 1), predicted_end = (2024, 3, 5),
            confidence = Fin (95 / 100)\<rparr>
   \<and> fertilityWindow
       [closed_cycle (2024, 1, 5) (2024, 1, 9), closed_cycle (2024, 2, 2) (2024, 2, 6)]
     = Some \<lparr>fertile_start = (2024, 2, 11), fertile_end = (2024, 2, 16),
         ovulation_day = (2024, 2, 16), peak_start = (2024, 2, 14), peak_end = (2024, 2, 16)\<rparr>
   \<and> 99 < YearFromTime (parseDate (2024, 3, 1) - 19)
   \<and> daysBetween (2024, 2, 16) (2024, 3, 1) = 14
   \<and> daysBetween (2024, 2, 11) (2024, 2, 16) = 5
   \<and> daysBetween (2024, 2, 14) (2024, 2, 16) = 2"
proof -
  let ?cycles = "[closed_cycle (2024, 1, 5) (2024, 1, 9), closed_cycle (2024, 2, 2) (2024, 2, 6)]"
  let ?p = "\<lparr>predicted_start = (2024, 3, 1), predicted_end = (2024, 3, 5),
            confidence = Fin (95 / 100)\<rparr>"
  from fertilityWindow_fields [of ?cycles] march_predict
  obtain w where w: "fertilityWindow ?cycles = Some w"
    "fertile_end w = ovulation_day w" "peak_end w = ovulation_day w"
    "99 < YearFromTime (parseDate (predicted_start ?p) - 19) \<longrightarrow>
       daysBetween (ovulation_day w) (predicted_start ?p) = 14
       \<and> daysBetween (fertile_start w) (ovulation_day w) = 5
       \<and> daysBetween (peak_start w) (ovulation_day w) = 2"
    "predicted_start ?p = (2024, 3, 1) \<longrightarrow>
       ovulation_day w = (2024, 2, 16) \<and> fertile_start w = (2024, 2, 11)
       \<and> peak_start w = (2024, 2, 14)"
    by blast
  then have eq: "w = \<lparr>fertile_start = (2024, 2, 11), fertile_end = (2024, 2, 16),
         ovulation_day = (2024, 2, 16), peak_start = (2024, 2, 14), peak_end = (2024, 2, 16)\<rparr>"
    by simp
  from w(4) march_year have "daysBetween (ovulation_day w) (2024, 3, 1) = 14
       \<and> daysBetween (fertile_start w) (ovulation_day w) = 5
       \<and> daysBetween (peak_start w) (ovulation_day w) = 2"
    by simp
  with eq w(1) march_predict march_year show ?thesis by simp
qed

text \<open>
  Claim C10.  Two lists of cycles with the same closed cycles, in the same order, give
  the same prediction and the same fertility window, whatever open cycles each of them
  holds; the prediction is that of the closed cycles alone.
\<close>

theorem open_cycles_ignored:
  assumes "filter (\<lambda>c. end_date c \<noteq> None) cycles1 = filter (\<lambda>c. end_date c \<noteq> None) cycles2"
  shows "predict cycles1 = predict cycles2
       \<and> fertilityWindow cycles1 = fertilityWindow cycles2
       \<and> predict cycles1 = predict (filter (\<lambda>c. end_date c \<noteq> None) cycles1)"
proof -
  have "completed_cycles cycles1 = completed_cycles cycles2"
    using assms by (simp add: completed_cycles_def)
  moreover have "completed_cycles (filter (\<lambda>c. end_date c \<noteq> None) cycles1)
      = completed_cycles cycles1"
    by (simp add: completed_cycles_def)
  ultimately show ?thesis
    by (simp add: predict_def fertilityWindow_def)
qed

theorem open_cycles_ignored_witness:
  "predict [open_cycle (2023, 12, 1), closed_cycle (2024, 1, 5) (2024, 1, 9),
      open_cycle (2024, 1, 20), closed_cycle (2024, 2, 2) (2024, 2, 6), open_cycle (2024, 3, 1)]
   = predict [closed_cycle (2024, 1, 5) (2024, 1, 9), closed_cycle (2024, 2, 2) (2024, 2, 6)]
   \<and> fertilityWindow [open_cycle (2023, 12, 1), closed_cycle (2024, 1, 5) (2024, 1, 9),
      open_cycle (2024, 1, 20), closed_cycle (2024, 2, 2) (2024, 2, 6), open_cycle (2024, 3, 1)]
   = fertilityWindow [closed_cycle (2024, 1, 5) (2024, 1, 9), closed_cycle (2024, 2, 2) (2024, 2, 6)]"
proof -
  have "filter (\<lambda>c. end_date c \<noteq> None) [open_cycle (2023, 12, 1),
      closed_cycle (2024, 1, 5) (2024, 1, 9), open_cycle (2024, 1, 20),
      closed_cycle (2024, 2, 2) (2024, 2, 6), open_cycle (2024, 3, 1)]
    = filter (\<lambda>c. end_date c \<noteq> None)
       [closed_cycle (2024, 1, 5) (2024, 1, 9), closed_cycle (2024, 2, 2) (2024, 2, 6)]"
    by (simp add: open_cycle_def closed_cycle_def)
  from open_cycles_ignored [OF this] show ?thesis by blast
qed

end
